theory Spec2Isabelle
  imports Main "HOL-Library.Word"
begin

section \<open>Input/output buffers of the network layer (iobuf.h, iobuf.cc)\<close>

text \<open>
  The development embeds \<^verbatim>\<open>struct ibuf\<close>, \<^verbatim>\<open>struct obuf\<close>, \<^verbatim>\<open>struct obuf_svp\<close> and
  \<^verbatim>\<open>struct iobuf\<close> with the functions that operate on them.

  Conventions of the embedding.
  \<^item> \<^verbatim>\<open>size_t\<close> values and the \<^verbatim>\<open>int\<close> index \<^verbatim>\<open>pos\<close> are natural numbers; no operation
    below is studied at sizes where a 64-bit \<^verbatim>\<open>size_t\<close> wraps around.
  \<^item> A pointer is an address (a natural number, \<open>0\<close> for \<^verbatim>\<open>NULL\<close>); memory is a function
    from addresses to bytes.
  \<^item> \<^verbatim>\<open>tnt_raise(OutOfMemory, ...)\<close> and a failed \<^verbatim>\<open>assert\<close> are values of type \<open>error\<close>.
    A function that can raise returns \<open>(error + 'a) \<times> state\<close>: the state is the one the
    object is left in when the exception propagates.
  \<^item> A function containing a capacity-doubling \<^verbatim>\<open>while\<close> loop returns an \<open>option\<close>;
    \<open>None\<close> means that the loop never ends.
  \<^item> Record fields carry a prefix (\<open>o_\<close> for \<^verbatim>\<open>struct obuf\<close>, \<open>i_\<close> for \<^verbatim>\<open>struct ibuf\<close>,
    \<open>io_\<close> for \<^verbatim>\<open>struct iobuf\<close>, \<open>svp_\<close> for \<^verbatim>\<open>struct obuf_svp\<close>) because the structs share
    field names.
\<close>

type_synonym byte = "8 word"
type_synonym addr = nat
type_synonym memory = "addr \<Rightarrow> byte"

datatype error = OutOfMemory | AssertionFailed

subsection \<open>Memory primitives\<close>

text \<open>\<^verbatim>\<open>memcpy(dst, data, n)\<close> where the \<open>n\<close> source bytes are given as a list.\<close>

definition memcpy :: "memory \<Rightarrow> addr \<Rightarrow> byte list \<Rightarrow> memory" where
  "memcpy mem dst data =
     (\<lambda>a. if dst \<le> a \<and> a < dst + length data then data ! (a - dst) else mem a)"

text \<open>The \<open>n\<close> bytes stored at \<open>p\<close>.\<close>

definition mem_read :: "memory \<Rightarrow> addr \<Rightarrow> nat \<Rightarrow> byte list" where
  "mem_read mem p n = map mem [p ..< p + n]"

text \<open>\<^verbatim>\<open>memmove(dst, src, n)\<close>: the source range is read before anything is written.\<close>

definition memmove :: "memory \<Rightarrow> addr \<Rightarrow> addr \<Rightarrow> nat \<Rightarrow> memory" where
  "memmove mem dst src n = memcpy mem dst (mem_read mem src n)"

subsection \<open>The capacity-doubling loop\<close>

text \<open>
  \<^verbatim>\<open>while (capacity < size) capacity *= 2;\<close> as it occurs in \<^verbatim>\<open>obuf_alloc_pos\<close> and
  \<^verbatim>\<open>ibuf_reserve\<close>. From capacity \<open>0\<close> and a positive size the loop does not end.
\<close>

partial_function (option) grow_capacity :: "nat \<Rightarrow> nat \<Rightarrow> nat option" where
  "grow_capacity capacity sz =
     (if capacity < sz then grow_capacity (capacity * 2) sz else Some capacity)"

declare grow_capacity.simps [code]

subsection \<open>The region allocator\<close>

text \<open>
  Modelled from the spec: \<^verbatim>\<open>region_alloc\<close> of \<^verbatim>\<open>small/region.h\<close> is not part of the sources at
  hand. The spec describes the arena as supplying append-only, monotonically growing
  allocations, with an allocation failure being an out-of-memory condition. The model is a
  bump allocator over the address range up to \<open>region_limit\<close>: \<open>region_next\<close> is the first
  address not yet handed out.
\<close>

record region =
  region_next :: addr
  region_limit :: addr

definition region_alloc :: "region \<Rightarrow> nat \<Rightarrow> (error + addr) \<times> region" where
  "region_alloc r n =
     (if region_next r + n \<le> region_limit r
      then (Inr (region_next r), r\<lparr>region_next := region_next r + n\<rparr>)
      else (Inl OutOfMemory, r))"

subsection \<open>Output buffer: data\<close>

definition IOBUF_IOV_MAX :: nat where
  "IOBUF_IOV_MAX = 32"

record iovec =
  iov_base :: addr
  iov_len :: nat

text \<open>
  \<^verbatim>\<open>struct obuf\<close>. The arrays \<open>o_capacity\<close> and \<open>o_iov\<close> are lists of \<open>IOBUF_IOV_MAX\<close>
  elements. \<open>o_pool\<close> is the region that \<^verbatim>\<open>buf->pool\<close> points to.
\<close>

record obuf =
  o_pool :: region
  o_size :: nat
  o_pos :: nat
  o_alloc_factor :: nat
  o_capacity :: "nat list"
  o_iov :: "iovec list"

record obuf_svp =
  svp_pos :: nat
  svp_iov_len :: nat
  svp_size :: nat

subsection \<open>Output buffer: operations\<close>

definition obuf_init_pos :: "obuf \<Rightarrow> nat \<Rightarrow> (error + unit) \<times> obuf" where
  "obuf_init_pos buf p =
     (if p \<ge> IOBUF_IOV_MAX then (Inl OutOfMemory, buf)
      else (Inr (),
            buf\<lparr>o_capacity := (o_capacity buf)[p := 0],
                o_iov := (o_iov buf)[p := \<lparr>iov_base = 0, iov_len = 0\<rparr>]\<rparr>))"

text \<open>
  \<^verbatim>\<open>obuf_alloc_pos\<close>. The capacity is stored at index \<^verbatim>\<open>buf->pos\<close>, not at the parameter
  \<^verbatim>\<open>pos\<close>, as in the source.
\<close>

definition obuf_alloc_pos :: "obuf \<Rightarrow> nat \<Rightarrow> nat \<Rightarrow> ((error + unit) \<times> obuf) option" where
  "obuf_alloc_pos buf p sz =
     (if o_capacity buf ! p \<noteq> 0 then Some (Inl AssertionFailed, buf)
      else
        case grow_capacity
               (if p > 0 then o_capacity buf ! (p - 1) * 2 else o_alloc_factor buf) sz of
          None \<Rightarrow> None
        | Some capacity \<Rightarrow>
            (case region_alloc (o_pool buf) capacity of
               (Inl e, r) \<Rightarrow> Some (Inl e, buf\<lparr>o_pool := r\<rparr>)
             | (Inr base, r) \<Rightarrow>
                 let buf' = buf\<lparr>o_pool := r,
                               o_iov := (o_iov buf)[p := (o_iov buf ! p)\<lparr>iov_base := base\<rparr>],
                               o_capacity := (o_capacity buf)[o_pos buf := capacity]\<rparr>
                 in if iov_len (o_iov buf' ! p) \<noteq> 0 then Some (Inl AssertionFailed, buf')
                    else Some (Inr (), buf')))"

text \<open>
  \<^verbatim>\<open>obuf_create\<close> writes the scalar fields and slot 0 of a struct whose other slots keep
  whatever they held; \<open>buf\<close> is that struct before the call.
\<close>

definition obuf_create :: "obuf \<Rightarrow> region \<Rightarrow> nat \<Rightarrow> (error + unit) \<times> obuf" where
  "obuf_create buf pool alloc_factor =
     obuf_init_pos (buf\<lparr>o_pool := pool, o_pos := 0, o_size := 0,
                        o_alloc_factor := alloc_factor\<rparr>) 0"

definition obuf_size :: "obuf \<Rightarrow> nat" where
  "obuf_size buf = o_size buf"

definition obuf_iovcnt :: "obuf \<Rightarrow> nat" where
  "obuf_iovcnt buf =
     (if iov_len (o_iov buf ! o_pos buf) > 0 then o_pos buf + 1 else o_pos buf)"

text \<open>Setting \<^verbatim>\<open>iov[i].iov_len = 0\<close> for \<open>i\<close> from \<open>lo\<close> up to, not including, \<open>hi\<close>.\<close>

definition zero_iov_lens :: "iovec list \<Rightarrow> nat \<Rightarrow> nat \<Rightarrow> iovec list" where
  "zero_iov_lens iov lo hi = foldl (\<lambda>v i. v[i := (v ! i)\<lparr>iov_len := 0\<rparr>]) iov [lo ..< hi]"

definition obuf_reset :: "obuf \<Rightarrow> obuf" where
  "obuf_reset buf =
     (let iovcnt = obuf_iovcnt buf
      in buf\<lparr>o_iov := zero_iov_lens (o_iov buf) 0 iovcnt, o_pos := 0, o_size := 0\<rparr>)"

text \<open>
  The loop of \<^verbatim>\<open>obuf_dup\<close>. The locals \<^verbatim>\<open>iov\<close> and \<^verbatim>\<open>capacity\<close> are \<^verbatim>\<open>&buf->iov[buf->pos]\<close> and
  \<^verbatim>\<open>buf->capacity[buf->pos]\<close> at the head of every iteration. The result is the data that
  is still to be copied when the loop is left.
\<close>

function obuf_dup_loop ::
  "obuf \<Rightarrow> memory \<Rightarrow> byte list \<Rightarrow> ((error + byte list) \<times> obuf \<times> memory) option" where
  "obuf_dup_loop buf mem data =
     (let iov = o_iov buf ! o_pos buf; capacity = o_capacity buf ! o_pos buf in
      if iov_len iov + length data > capacity then
        if iov_len iov < capacity then
          let fill = capacity - iov_len iov in
          if \<not> fill < length data then Some (Inl AssertionFailed, buf, mem)
          else
            let mem1 = memcpy mem (iov_base iov + iov_len iov) (take fill data);
                buf1 = buf\<lparr>o_iov := (o_iov buf)[o_pos buf := iov\<lparr>iov_len := iov_len iov + fill\<rparr>],
                           o_size := o_size buf + fill\<rparr>;
                data1 = drop fill data
            in if capacity \<noteq> iov_len (o_iov buf1 ! o_pos buf1)
               then Some (Inl AssertionFailed, buf1, mem1)
               else if \<not> o_pos buf1 + 1 < IOBUF_IOV_MAX
               then Some (Inl AssertionFailed, buf1\<lparr>o_pos := o_pos buf1 + 1\<rparr>, mem1)
               else obuf_dup_loop (buf1\<lparr>o_pos := o_pos buf1 + 1\<rparr>) mem1 data1
        else if capacity = 0 then
          (case obuf_init_pos buf (o_pos buf + 1) of
             (Inl e, buf1) \<Rightarrow> Some (Inl e, buf1, mem)
           | (Inr _, buf1) \<Rightarrow>
               (case obuf_alloc_pos buf1 (o_pos buf1) (length data) of
                  None \<Rightarrow> None
                | Some (Inl e, buf2) \<Rightarrow> Some (Inl e, buf2, mem)
                | Some (Inr _, buf2) \<Rightarrow> Some (Inr data, buf2, mem)))
        else if capacity \<noteq> iov_len iov then Some (Inl AssertionFailed, buf, mem)
        else if \<not> o_pos buf + 1 < IOBUF_IOV_MAX
        then Some (Inl AssertionFailed, buf\<lparr>o_pos := o_pos buf + 1\<rparr>, mem)
        else obuf_dup_loop (buf\<lparr>o_pos := o_pos buf + 1\<rparr>) mem data
      else Some (Inr data, buf, mem))"
  by pat_completeness auto
termination
  by (relation "measure (\<lambda>(buf, mem, data). IOBUF_IOV_MAX - o_pos buf)") auto

declare obuf_dup_loop.simps [simp del]

definition obuf_dup :: "obuf \<Rightarrow> memory \<Rightarrow> byte list \<Rightarrow> ((error + unit) \<times> obuf \<times> memory) option" where
  "obuf_dup buf mem data =
     (case obuf_dup_loop buf mem data of
        None \<Rightarrow> None
      | Some (Inl e, buf1, mem1) \<Rightarrow> Some (Inl e, buf1, mem1)
      | Some (Inr rest, buf1, mem1) \<Rightarrow>
          let iov = o_iov buf1 ! o_pos buf1;
              mem2 = memcpy mem1 (iov_base iov + iov_len iov) rest;
              buf2 = buf1\<lparr>o_iov := (o_iov buf1)[o_pos buf1 := iov\<lparr>iov_len := iov_len iov + length rest\<rparr>],
                         o_size := o_size buf1 + length rest\<rparr>
          in if \<not> iov_len (o_iov buf2 ! o_pos buf2) \<le> o_capacity buf2 ! o_pos buf2
             then Some (Inl AssertionFailed, buf2, mem2)
             else Some (Inr (), buf2, mem2))"

definition obuf_reserve_slow :: "obuf \<Rightarrow> nat \<Rightarrow> ((error + addr) \<times> obuf) option" where
  "obuf_reserve_slow buf sz =
     (let moved = iov_len (o_iov buf ! o_pos buf) > 0;
          buf1 = (if moved then buf\<lparr>o_pos := o_pos buf + 1\<rparr> else buf)
      in if moved \<and> \<not> o_pos buf1 < IOBUF_IOV_MAX then Some (Inl AssertionFailed, buf1)
         else
           let iov = o_iov buf1 ! o_pos buf1; capacity = o_capacity buf1 ! o_pos buf1 in
           if iov_len iov \<noteq> 0 then Some (Inl AssertionFailed, buf1)
           else
             case (if capacity = 0 then
                     (case obuf_init_pos buf1 (o_pos buf1 + 1) of
                        (Inl e, buf2) \<Rightarrow> Some (Inl e, buf2)
                      | (Inr _, buf2) \<Rightarrow> obuf_alloc_pos buf2 (o_pos buf2) sz)
                   else if sz > capacity then obuf_alloc_pos buf1 (o_pos buf1) sz
                   else Some (Inr (), buf1)) of
               None \<Rightarrow> None
             | Some (Inl e, buf3) \<Rightarrow> Some (Inl e, buf3)
             | Some (Inr _, buf3) \<Rightarrow>
                 if \<not> iov_len (o_iov buf3 ! o_pos buf3) + sz \<le> o_capacity buf3 ! o_pos buf3
                 then Some (Inl AssertionFailed, buf3)
                 else Some (Inr (iov_base (o_iov buf3 ! o_pos buf3)
                                  + iov_len (o_iov buf3 ! o_pos buf3)), buf3))"

definition obuf_reserve :: "obuf \<Rightarrow> nat \<Rightarrow> ((error + addr) \<times> obuf) option" where
  "obuf_reserve buf sz =
     (if iov_len (o_iov buf ! o_pos buf) + sz > o_capacity buf ! o_pos buf
      then obuf_reserve_slow buf sz
      else let iov = o_iov buf ! o_pos buf in Some (Inr (iov_base iov + iov_len iov), buf))"

definition obuf_alloc :: "obuf \<Rightarrow> nat \<Rightarrow> ((error + addr) \<times> obuf) option" where
  "obuf_alloc buf sz =
     (case (if iov_len (o_iov buf ! o_pos buf) + sz > o_capacity buf ! o_pos buf
            then obuf_reserve_slow buf sz else Some (Inr 0, buf)) of
        None \<Rightarrow> None
      | Some (Inl e, buf1) \<Rightarrow> Some (Inl e, buf1)
      | Some (Inr _, buf1) \<Rightarrow>
          let iov = o_iov buf1 ! o_pos buf1;
              ptr = iov_base iov + iov_len iov;
              buf2 = buf1\<lparr>o_iov := (o_iov buf1)[o_pos buf1 := iov\<lparr>iov_len := iov_len iov + sz\<rparr>],
                         o_size := o_size buf1 + sz\<rparr>
          in if \<not> iov_len (o_iov buf2 ! o_pos buf2) < o_capacity buf2 ! o_pos buf2
             then Some (Inl AssertionFailed, buf2)
             else Some (Inr ptr, buf2))"

definition obuf_create_svp :: "obuf \<Rightarrow> obuf_svp" where
  "obuf_create_svp buf =
     \<lparr>svp_pos = o_pos buf, svp_iov_len = iov_len (o_iov buf ! o_pos buf), svp_size = o_size buf\<rparr>"

definition obuf_book :: "obuf \<Rightarrow> nat \<Rightarrow> ((error + obuf_svp) \<times> obuf) option" where
  "obuf_book buf sz =
     (case obuf_reserve buf sz of
        None \<Rightarrow> None
      | Some (Inl e, buf1) \<Rightarrow> Some (Inl e, buf1)
      | Some (Inr _, buf1) \<Rightarrow>
          let svp = \<lparr>svp_pos = o_pos buf1, svp_iov_len = iov_len (o_iov buf1 ! o_pos buf1),
                     svp_size = o_size buf1\<rparr>
          in case obuf_alloc buf1 sz of
               None \<Rightarrow> None
             | Some (Inl e, buf2) \<Rightarrow> Some (Inl e, buf2)
             | Some (Inr _, buf2) \<Rightarrow> Some (Inr svp, buf2))"

definition obuf_svp_to_ptr :: "obuf \<Rightarrow> obuf_svp \<Rightarrow> addr" where
  "obuf_svp_to_ptr buf svp = iov_base (o_iov buf ! svp_pos svp) + svp_iov_len svp"

definition obuf_rollback_to_svp :: "obuf \<Rightarrow> obuf_svp \<Rightarrow> obuf" where
  "obuf_rollback_to_svp buf svp =
     (let iovcnt = obuf_iovcnt buf;
          buf1 = buf\<lparr>o_pos := svp_pos svp\<rparr>;
          buf2 = buf1\<lparr>o_iov := (o_iov buf1)[o_pos buf1 :=
                                   (o_iov buf1 ! o_pos buf1)\<lparr>iov_len := svp_iov_len svp\<rparr>]\<rparr>;
          buf3 = buf2\<lparr>o_size := svp_size svp\<rparr>
      in buf3\<lparr>o_iov := zero_iov_lens (o_iov buf3) (o_pos buf3 + 1) iovcnt\<rparr>)"

subsection \<open>Input buffer\<close>

text \<open>
  Modelled from the spec: \<^verbatim>\<open>slab_get\<close>, \<^verbatim>\<open>slab_put\<close>, \<^verbatim>\<open>slab_data\<close>, \<^verbatim>\<open>slab_capacity\<close> and
  \<^verbatim>\<open>slab_from_data\<close> of the slab cache are not part of the sources at hand. The spec gives the
  contract: acquiring a chunk of a minimal size returns a chunk with its data and a capacity
  of at least that size, or fails; a chunk can be released. The model hands out chunks
  of exactly the requested capacity from the address range up to \<open>sc_limit\<close> and keeps the
  list of chunks that are handed out and not released.
\<close>

record slab =
  slab_data :: addr
  slab_capacity :: nat

record slab_cache =
  sc_next :: addr
  sc_limit :: addr
  sc_live :: "slab list"

definition slab_get :: "slab_cache \<Rightarrow> nat \<Rightarrow> slab option \<times> slab_cache" where
  "slab_get sc n =
     (if sc_next sc + n \<le> sc_limit sc
      then (let s = \<lparr>slab_data = sc_next sc, slab_capacity = n\<rparr>
            in (Some s, sc\<lparr>sc_next := sc_next sc + n, sc_live := s # sc_live sc\<rparr>))
      else (None, sc))"

text \<open>\<^verbatim>\<open>slab_put(slabc, slab_from_data(ptr))\<close>.\<close>

definition slab_put_data :: "slab_cache \<Rightarrow> addr \<Rightarrow> slab_cache" where
  "slab_put_data sc ptr = sc\<lparr>sc_live := filter (\<lambda>s. slab_data s \<noteq> ptr) (sc_live sc)\<rparr>"

text \<open>\<^verbatim>\<open>struct ibuf\<close>; the slab cache that \<^verbatim>\<open>ibuf->slabc\<close> points to is passed along.\<close>

record ibuf =
  i_buf :: addr
  i_pos :: addr
  i_end :: addr
  i_capacity :: nat

definition ibuf_create :: "ibuf" where
  "ibuf_create = \<lparr>i_buf = 0, i_pos = 0, i_end = 0, i_capacity = 0\<rparr>"

definition ibuf_reset :: "ibuf \<Rightarrow> ibuf" where
  "ibuf_reset ib = ib\<lparr>i_pos := i_buf ib, i_end := i_buf ib\<rparr>"

definition ibuf_size :: "ibuf \<Rightarrow> error + nat" where
  "ibuf_size ib = (if i_end ib \<ge> i_pos ib then Inr (i_end ib - i_pos ib) else Inl AssertionFailed)"

definition ibuf_unused :: "ibuf \<Rightarrow> nat" where
  "ibuf_unused ib = i_buf ib + i_capacity ib - i_end ib"

definition ibuf_capacity :: "ibuf \<Rightarrow> nat" where
  "ibuf_capacity ib = i_capacity ib"

definition ibuf_pos :: "ibuf \<Rightarrow> nat" where
  "ibuf_pos ib = i_pos ib - i_buf ib"

text \<open>
  \<^verbatim>\<open>ibuf_reserve\<close>. \<open>readahead\<close> is the value of the global \<^verbatim>\<open>iobuf_readahead\<close> at the time
  of the call.
\<close>

definition ibuf_reserve ::
  "nat \<Rightarrow> ibuf \<Rightarrow> slab_cache \<Rightarrow> memory \<Rightarrow> nat
     \<Rightarrow> ((error + unit) \<times> ibuf \<times> slab_cache \<times> memory) option" where
  "ibuf_reserve readahead ib sc mem sz =
     (if sz \<le> ibuf_unused ib then Some (Inr (), ib, sc, mem)
      else
        case ibuf_size ib of
          Inl e \<Rightarrow> Some (Inl e, ib, sc, mem)
        | Inr current_size \<Rightarrow>
            (case (if sz + current_size \<le> i_capacity ib
                   then Some (Inr (), ib, sc, memmove mem (i_buf ib) (i_pos ib) current_size)
                   else
                     (case grow_capacity (max (i_capacity ib * 2) readahead)
                             (current_size + sz) of
                        None \<Rightarrow> None
                      | Some new_capacity \<Rightarrow>
                          (case slab_get sc new_capacity of
                             (None, sc1) \<Rightarrow> Some (Inl OutOfMemory, ib, sc1, mem)
                           | (Some slab, sc1) \<Rightarrow>
                               let ptr = slab_data slab;
                                   mem1 = memcpy mem ptr (mem_read mem (i_pos ib) current_size);
                                   ib1 = ib\<lparr>i_capacity := slab_capacity slab\<rparr>;
                                   sc2 = (if i_buf ib1 \<noteq> 0 then slab_put_data sc1 (i_buf ib1)
                                          else sc1)
                               in Some (Inr (), ib1\<lparr>i_buf := ptr\<rparr>, sc2, mem1)))) of
               None \<Rightarrow> None
             | Some (Inl e, st) \<Rightarrow> Some (Inl e, st)
             | Some (Inr _, ib2, sc3, mem2) \<Rightarrow>
                 Some (Inr (), ib2\<lparr>i_pos := i_buf ib2, i_end := i_buf ib2 + current_size\<rparr>,
                       sc3, mem2)))"

subsection \<open>The input/output pair\<close>





subsection \<open>Sequences of appends\<close>

text \<open>
  The two ways in which callers append bytes: \<^verbatim>\<open>obuf_dup(buf, data, n)\<close>, and
  \<^verbatim>\<open>p = obuf_alloc(buf, n)\<close> followed by writing the \<open>n\<close> bytes at \<open>p\<close>.
\<close>

datatype append_op = Dup "byte list" | Alloc "byte list"


fun obuf_append ::
  "obuf \<Rightarrow> memory \<Rightarrow> append_op \<Rightarrow> ((error + unit) \<times> obuf \<times> memory) option" where
  "obuf_append buf mem (Dup data) = obuf_dup buf mem data"
| "obuf_append buf mem (Alloc data) =
     (case obuf_alloc buf (length data) of
        None \<Rightarrow> None
      | Some (Inl e, buf') \<Rightarrow> Some (Inl e, buf', mem)
      | Some (Inr ptr, buf') \<Rightarrow> Some (Inr (), buf', memcpy mem ptr data))"

text \<open>A sequence of appends ends at the first one that raises.\<close>

fun obuf_appends ::
  "obuf \<Rightarrow> memory \<Rightarrow> append_op list \<Rightarrow> ((error + unit) \<times> obuf \<times> memory) option" where
  "obuf_appends buf mem [] = Some (Inr (), buf, mem)"
| "obuf_appends buf mem (x # xs) =
     (case obuf_append buf mem x of
        None \<Rightarrow> None
      | Some (Inl e, buf', mem') \<Rightarrow> Some (Inl e, buf', mem')
      | Some (Inr _, buf', mem') \<Rightarrow> obuf_appends buf' mem' xs)"

text \<open>
  \<^verbatim>\<open>p = obuf_reserve(buf, n)\<close>, writing \<open>n\<close> bytes at \<open>p\<close>, then \<^verbatim>\<open>obuf_alloc(buf, n)\<close>.
\<close>

definition obuf_reserve_write_alloc ::
  "obuf \<Rightarrow> memory \<Rightarrow> byte list \<Rightarrow> ((error + addr) \<times> obuf \<times> memory) option" where
  "obuf_reserve_write_alloc buf mem data =
     (case obuf_reserve buf (length data) of
        None \<Rightarrow> None
      | Some (Inl e, buf1) \<Rightarrow> Some (Inl e, buf1, mem)
      | Some (Inr ptr, buf1) \<Rightarrow>
          (case obuf_alloc buf1 (length data) of
             None \<Rightarrow> None
           | Some (Inl e, buf2) \<Rightarrow> Some (Inl e, buf2, memcpy mem ptr data)
           | Some (Inr p, buf2) \<Rightarrow> Some (Inr p, buf2, memcpy mem ptr data)))"



section \<open>Well-formed output buffers\<close>

text \<open>The bytes of one segment: \<open>iov_len\<close> bytes from \<open>iov_base\<close> on.\<close>

definition seg_bytes :: "memory \<Rightarrow> iovec \<Rightarrow> byte list" where
  "seg_bytes mem v = mem_read mem (iov_base v) (iov_len v)"

text \<open>
  The byte stream of the buffer: what \<^verbatim>\<open>writev\<close> sends for \<^verbatim>\<open>iov[0 .. obuf_iovcnt)\<close>, segment 0
  first.
\<close>

definition obuf_contents :: "obuf \<Rightarrow> memory \<Rightarrow> byte list" where
  "obuf_contents buf mem =
     concat (map (seg_bytes mem) (take (obuf_iovcnt buf) (o_iov buf)))"

text \<open>An address that holds a byte of the buffer's stream.\<close>

definition obuf_used :: "obuf \<Rightarrow> addr \<Rightarrow> bool" where
  "obuf_used buf a \<longleftrightarrow>
     (\<exists>i\<le>o_pos buf. iov_base (o_iov buf ! i) \<le> a
          \<and> a < iov_base (o_iov buf ! i) + iov_len (o_iov buf ! i))"

text \<open>
  The invariant of \<^verbatim>\<open>struct obuf\<close>, with \<open>k\<close> the index of the zero-initialised slot that
  follows the last allocated segment (the end marker of the comments in the source).
  Slots after \<open>k\<close> are not constrained: \<^verbatim>\<open>obuf_create\<close> initialises slot 0 only. The segments
  before \<open>k\<close> lie in the part of the region that is handed out, in allocation order.
\<close>

definition obuf_inv_at :: "nat \<Rightarrow> obuf \<Rightarrow> bool" where
  "obuf_inv_at k buf \<longleftrightarrow>
     length (o_capacity buf) = IOBUF_IOV_MAX \<and> length (o_iov buf) = IOBUF_IOV_MAX \<and>
     0 < o_alloc_factor buf \<and>
     k < IOBUF_IOV_MAX \<and> o_pos buf \<le> k \<and>
     o_capacity buf ! k = 0 \<and> iov_len (o_iov buf ! k) = 0 \<and>
     (\<forall>i<k. 0 < o_capacity buf ! i
            \<and> iov_len (o_iov buf ! i) \<le> o_capacity buf ! i
            \<and> iov_base (o_iov buf ! i) + o_capacity buf ! i \<le> region_next (o_pool buf)
            \<and> (o_pos buf < i \<longrightarrow> iov_len (o_iov buf ! i) = 0)
            \<and> (\<forall>j<i. iov_base (o_iov buf ! j) + o_capacity buf ! j
                        \<le> iov_base (o_iov buf ! i))) \<and>
     o_size buf = sum_list (map iov_len (take (Suc (o_pos buf)) (o_iov buf)))"

definition obuf_inv :: "obuf \<Rightarrow> bool" where
  "obuf_inv buf \<longleftrightarrow> (\<exists>k<IOBUF_IOV_MAX. obuf_inv_at k buf)"

text \<open>
  \<open>obuf_extends buf mem buf' mem'\<close>: the later state \<open>(buf', mem')\<close> still holds everything
  that \<open>(buf, mem)\<close> held, at the same addresses.
\<close>

definition obuf_extends :: "obuf \<Rightarrow> memory \<Rightarrow> obuf \<Rightarrow> memory \<Rightarrow> bool" where
  "obuf_extends buf mem buf' mem' \<longleftrightarrow>
     o_pos buf \<le> o_pos buf' \<and>
     (\<forall>i<o_pos buf. o_iov buf' ! i = o_iov buf ! i) \<and>
     iov_len (o_iov buf ! o_pos buf) \<le> iov_len (o_iov buf' ! o_pos buf) \<and>
     (0 < iov_len (o_iov buf ! o_pos buf)
        \<longrightarrow> iov_base (o_iov buf' ! o_pos buf) = iov_base (o_iov buf ! o_pos buf)) \<and>
     (\<forall>a. obuf_used buf a \<longrightarrow> mem' a = mem a)"

text \<open>A savepoint that \<^verbatim>\<open>obuf_rollback_to_svp\<close> may be given in state \<open>buf\<close>.\<close>

definition svp_valid :: "obuf \<Rightarrow> obuf_svp \<Rightarrow> bool" where
  "svp_valid buf svp \<longleftrightarrow>
     svp_pos svp \<le> o_pos buf \<and>
     svp_iov_len svp \<le> iov_len (o_iov buf ! svp_pos svp) \<and>
     svp_size svp
       = sum_list (map iov_len (take (svp_pos svp) (o_iov buf))) + svp_iov_len svp"

text \<open>The free bytes of the allocated segments from the current one on.\<close>

definition obuf_room :: "nat \<Rightarrow> obuf \<Rightarrow> nat" where
  "obuf_room k buf =
     sum_list (map (\<lambda>i. o_capacity buf ! i - iov_len (o_iov buf ! i)) [o_pos buf ..< k])"

text \<open>
  The three state changes that the append operations are made of:
  \<^verbatim>\<open>iov->iov_len += n; buf->size += n\<close>, \<^verbatim>\<open>buf->pos++\<close>, and
  \<^verbatim>\<open>obuf_init_pos(buf, buf->pos + 1); obuf_alloc_pos(buf, buf->pos, size)\<close>.
\<close>

definition obuf_put :: "obuf \<Rightarrow> nat \<Rightarrow> obuf" where
  "obuf_put buf n =
     buf\<lparr>o_iov := (o_iov buf)[o_pos buf :=
                     (o_iov buf ! o_pos buf)\<lparr>iov_len := iov_len (o_iov buf ! o_pos buf) + n\<rparr>],
         o_size := o_size buf + n\<rparr>"

definition obuf_advance :: "obuf \<Rightarrow> obuf" where
  "obuf_advance buf = buf\<lparr>o_pos := o_pos buf + 1\<rparr>"

definition obuf_new_segment :: "obuf \<Rightarrow> nat \<Rightarrow> ((error + unit) \<times> obuf) option" where
  "obuf_new_segment buf sz =
     (case obuf_init_pos buf (o_pos buf + 1) of
        (Inl e, buf1) \<Rightarrow> Some (Inl e, buf1)
      | (Inr _, buf1) \<Rightarrow> obuf_alloc_pos buf1 (o_pos buf1) sz)"

text \<open>
  The states of an output buffer that the operations can produce, starting from
  \<^verbatim>\<open>obuf_create\<close> with a positive growth factor on a struct of \<open>IOBUF_IOV_MAX\<close> slots. A state
  in which an operation raised counts as well: the exception leaves the object behind. A
  rollback is taken to a savepoint that is valid in the current state.
\<close>

inductive obuf_reachable :: "obuf \<Rightarrow> bool" where
  create: "length (o_capacity st) = IOBUF_IOV_MAX \<Longrightarrow> length (o_iov st) = IOBUF_IOV_MAX
             \<Longrightarrow> 0 < af \<Longrightarrow> obuf_create st pool af = (Inr (), buf) \<Longrightarrow> obuf_reachable buf"
| dup: "obuf_reachable buf \<Longrightarrow> obuf_dup buf mem data = Some (res, buf', mem')
          \<Longrightarrow> obuf_reachable buf'"
| reserve: "obuf_reachable buf \<Longrightarrow> obuf_reserve buf sz = Some (res1, buf')
          \<Longrightarrow> obuf_reachable buf'"
| reserve_slow: "obuf_reachable buf \<Longrightarrow> obuf_reserve_slow buf sz = Some (res1, buf')
          \<Longrightarrow> obuf_reachable buf'"
| alloc: "obuf_reachable buf \<Longrightarrow> obuf_alloc buf sz = Some (res1, buf')
          \<Longrightarrow> obuf_reachable buf'"
| book: "obuf_reachable buf \<Longrightarrow> obuf_book buf sz = Some (res2, buf')
          \<Longrightarrow> obuf_reachable buf'"
| rollback: "obuf_reachable buf \<Longrightarrow> svp_valid buf svp
          \<Longrightarrow> obuf_reachable (obuf_rollback_to_svp buf svp)"
| reset: "obuf_reachable buf \<Longrightarrow> obuf_reachable (obuf_reset buf)"

section \<open>Concrete states\<close>

text \<open>
  States on which the operations are run below: a memory, an input buffer with six unconsumed
  bytes at the end of a 16-byte chunk, a slab cache that cannot supply 20000 bytes, a
  struct \<^verbatim>\<open>obuf\<close> that holds arbitrary values before \<^verbatim>\<open>obuf_create\<close>, and a region.
\<close>

definition demo_mem :: memory where
  "demo_mem = (\<lambda>a. of_nat a)"

definition demo_ibuf :: ibuf where
  "demo_ibuf = \<lparr>i_buf = 100, i_pos = 110, i_end = 116, i_capacity = 16\<rparr>"

definition demo_slabc :: slab_cache where
  "demo_slabc = \<lparr>sc_next = 200, sc_limit = 20000,
                 sc_live = [\<lparr>slab_data = 100, slab_capacity = 16\<rparr>]\<rparr>"

definition uninit_obuf :: obuf where
  "uninit_obuf = \<lparr>o_pool = \<lparr>region_next = 0, region_limit = 0\<rparr>, o_size = 7, o_pos = 3,
                   o_alloc_factor = 9, o_capacity = replicate 32 5,
                   o_iov = replicate 32 \<lparr>iov_base = 77, iov_len = 3\<rparr>\<rparr>"

definition demo_pool :: region where
  "demo_pool = \<lparr>region_next = 1000, region_limit = 100000\<rparr>"

text \<open>The buffer of the scenario with growth factor 128, right after \<^verbatim>\<open>obuf_create\<close>.\<close>

definition scenario_buf0 :: obuf where
  "scenario_buf0 = snd (obuf_create uninit_obuf demo_pool 128)"


text \<open>
  The scenario: 100 bytes are appended, then 50 bytes; then the buffer is rolled back to the
  savepoint taken after the first append.
\<close>

definition scenario_A :: "byte list" where
  "scenario_A = replicate 100 1"

definition scenario_B :: "byte list" where
  "scenario_B = replicate 50 2"

definition scenario1 :: "obuf \<times> memory" where
  "scenario1 = snd (the (obuf_dup scenario_buf0 demo_mem scenario_A))"

definition scenario2 :: "obuf \<times> memory" where
  "scenario2 = snd (the (obuf_dup (fst scenario1) (snd scenario1) scenario_B))"

definition scenario3 :: obuf where
  "scenario3 = obuf_rollback_to_svp (fst scenario2) (obuf_create_svp (fst scenario1))"




text \<open>
  A buffer with growth factor 1 whose segments 0 to 30 are allocated and full: segment \<open>i\<close>
  has capacity \<open>2 ^ i\<close> and lies at address \<open>2 ^ i\<close>. Slot 31 is the end marker.
\<close>

definition full_obuf :: obuf where
  "full_obuf = \<lparr>o_pool = \<lparr>region_next = 2 ^ 31, region_limit = 2 ^ 32\<rparr>,
                 o_size = 2 ^ 31 - 1, o_pos = 30, o_alloc_factor = 1,
                 o_capacity = map (\<lambda>i. 2 ^ i) [0 ..< 31] @ [0],
                 o_iov = map (\<lambda>i. \<lparr>iov_base = 2 ^ i, iov_len = 2 ^ i\<rparr>) [0 ..< 31]
                           @ [\<lparr>iov_base = 0, iov_len = 0\<rparr>]\<rparr>"


lemma grow_capacity_total:
  "0 < c \<Longrightarrow> \<exists>c'. grow_capacity c sz = Some c' \<and> sz \<le> c' \<and> c \<le> c'"
proof (induction "sz - c" arbitrary: c rule: less_induct)
  case less
  show ?case
  proof (cases "c < sz")
    case True
    with less.prems have "sz - c * 2 < sz - c" by simp
    moreover from less.prems have "0 < c * 2" by simp
    ultimately obtain c' where "grow_capacity (c * 2) sz = Some c'" "sz \<le> c'" "c * 2 \<le> c'"
      using less.hyps by blast
    with True show ?thesis
      by (subst grow_capacity.simps) simp
  next
    case False
    then show ?thesis
      by (subst grow_capacity.simps) simp
  qed
qed

lemma mem_read_length [simp]: "length (mem_read mem p n) = n"
  by (simp add: mem_read_def)

lemma mem_read_memcpy_same: "mem_read (memcpy mem p xs) p (length xs) = xs"
  by (auto simp: mem_read_def memcpy_def intro!: nth_equalityI)

lemma mem_read_cong:
  "(\<And>a. p \<le> a \<Longrightarrow> a < p + n \<Longrightarrow> mem' a = mem a) \<Longrightarrow> mem_read mem' p n = mem_read mem p n"
  by (simp add: mem_read_def)

lemma mem_read_append:
  "mem_read mem p (n + m) = mem_read mem p n @ mem_read mem (p + n) m"
  by (auto simp: mem_read_def nth_append intro!: nth_equalityI)

lemma memcpy_outside: "a < dst \<or> dst + length xs \<le> a \<Longrightarrow> memcpy mem dst xs a = mem a"
  by (auto simp: memcpy_def)

lemma mem_read_memcpy_extend:
  "mem_read (memcpy mem (p + n) xs) p (n + length xs) = mem_read mem p n @ xs"
  by (simp add: mem_read_append mem_read_memcpy_same memcpy_outside cong: mem_read_cong)


lemma obuf_contents_alt:
  "o_pos buf < length (o_iov buf) \<Longrightarrow> obuf_contents buf mem
     = concat (map (seg_bytes mem) (take (Suc (o_pos buf)) (o_iov buf)))"
  by (simp add: obuf_contents_def obuf_iovcnt_def seg_bytes_def mem_read_def take_Suc_conv_app_nth)

lemma obuf_inv_at_pos: "obuf_inv_at k buf \<Longrightarrow> o_pos buf < length (o_iov buf)"
  by (simp add: obuf_inv_at_def)

lemma obuf_contents_length:
  "obuf_inv_at k buf \<Longrightarrow> length (obuf_contents buf mem) = o_size buf"
  by (simp add: obuf_contents_alt obuf_inv_at_pos)
     (simp add: obuf_inv_at_def length_concat seg_bytes_def comp_def)

lemma obuf_put_inv:
  assumes "obuf_inv_at k buf"
    and "iov_len (o_iov buf ! o_pos buf) + n \<le> o_capacity buf ! o_pos buf"
  shows "obuf_inv_at k (obuf_put buf n)"
  using assms unfolding obuf_inv_at_def obuf_put_def
  by (auto simp: nth_list_update take_Suc_conv_app_nth)


lemma obuf_inv_at_after_pos:
  "obuf_inv_at k buf \<Longrightarrow> o_pos buf < i \<Longrightarrow> i \<le> k \<Longrightarrow> iov_len (o_iov buf ! i) = 0"
  by (cases "i = k") (auto simp: obuf_inv_at_def)

lemma obuf_advance_inv:
  assumes "obuf_inv_at k buf" and "o_pos buf < k"
  shows "obuf_inv_at k (obuf_advance buf)"
proof -
  have "iov_len (o_iov buf ! Suc (o_pos buf)) = 0"
    using assms by (intro obuf_inv_at_after_pos [of k]) auto
  then show ?thesis
    using assms unfolding obuf_inv_at_def obuf_advance_def
    by (auto simp: take_Suc_conv_app_nth Suc_le_eq)
qed

lemma obuf_put_contents:
  assumes "obuf_inv_at k buf"
  shows "obuf_contents (obuf_put buf (length xs))
           (memcpy mem (iov_base (o_iov buf ! o_pos buf) + iov_len (o_iov buf ! o_pos buf)) xs)
         = concat (map (seg_bytes (memcpy mem (iov_base (o_iov buf ! o_pos buf) + iov_len (o_iov buf ! o_pos buf)) xs))
                     (take (o_pos buf) (o_iov buf)))
           @ mem_read mem (iov_base (o_iov buf ! o_pos buf)) (iov_len (o_iov buf ! o_pos buf)) @ xs"
proof -
  have p: "o_pos buf < length (o_iov buf)" using assms by (rule obuf_inv_at_pos)
  have "o_pos (obuf_put buf (length xs)) < length (o_iov (obuf_put buf (length xs)))"
    using p by (simp add: obuf_put_def)
  then show ?thesis
    using p by (simp add: obuf_contents_alt)
      (simp add: obuf_put_def take_Suc_conv_app_nth seg_bytes_def mem_read_memcpy_extend)
qed


lemma obuf_used_frame:
  assumes "obuf_inv_at k buf"
    and "iov_len (o_iov buf ! o_pos buf) + length xs \<le> o_capacity buf ! o_pos buf"
    and "obuf_used buf a"
  shows "memcpy mem (iov_base (o_iov buf ! o_pos buf) + iov_len (o_iov buf ! o_pos buf)) xs a = mem a"
proof (cases "xs = []")
  case True
  then show ?thesis by (auto simp: memcpy_def)
next
  case False
  with assms(1,2) have pk: "o_pos buf < k"
    by (cases "o_pos buf = k") (auto simp: obuf_inv_at_def)
  from assms(3) obtain i where i: "i \<le> o_pos buf" "iov_base (o_iov buf ! i) \<le> a"
    "a < iov_base (o_iov buf ! i) + iov_len (o_iov buf ! i)"
    by (auto simp: obuf_used_def)
  have "a < iov_base (o_iov buf ! o_pos buf) + iov_len (o_iov buf ! o_pos buf)"
  proof (cases "i = o_pos buf")
    case True
    with i show ?thesis by simp
  next
    case False
    with i have lt: "i < o_pos buf" by simp
    with pk assms(1) have "iov_len (o_iov buf ! i) \<le> o_capacity buf ! i"
      by (simp add: obuf_inv_at_def)
    moreover from lt pk assms(1)
    have "iov_base (o_iov buf ! i) + o_capacity buf ! i \<le> iov_base (o_iov buf ! o_pos buf)"
      by (simp add: obuf_inv_at_def)
    ultimately show ?thesis using i by simp
  qed
  then show ?thesis by (simp add: memcpy_outside)
qed

lemma seg_bytes_frame:
  assumes "\<And>a. obuf_used buf a \<Longrightarrow> mem' a = mem a" and "i \<le> o_pos buf"
  shows "seg_bytes mem' (o_iov buf ! i) = seg_bytes mem (o_iov buf ! i)"
  unfolding seg_bytes_def
  by (rule mem_read_cong, rule assms(1)) (use assms(2) in \<open>auto simp: obuf_used_def\<close>)

lemma seg_bytes_take_frame:
  assumes "\<And>a. obuf_used buf a \<Longrightarrow> mem' a = mem a" and "n \<le> Suc (o_pos buf)"
    and "o_pos buf < length (o_iov buf)"
  shows "map (seg_bytes mem') (take n (o_iov buf)) = map (seg_bytes mem) (take n (o_iov buf))"
proof (rule map_cong [OF refl])
  fix v assume "v \<in> set (take n (o_iov buf))"
  then obtain i where "i < n" "i < length (o_iov buf)" "v = o_iov buf ! i"
    by (auto simp: in_set_conv_nth)
  with assms(2) show "seg_bytes mem' v = seg_bytes mem v"
    using seg_bytes_frame [of buf mem' mem i] assms(1) by simp
qed

lemma obuf_contents_frame:
  assumes "\<And>a. obuf_used buf a \<Longrightarrow> mem' a = mem a" and "o_pos buf < length (o_iov buf)"
  shows "obuf_contents buf mem' = obuf_contents buf mem"
  unfolding obuf_contents_alt [OF assms(2)]
  by (rule arg_cong [where f = concat], rule seg_bytes_take_frame) (use assms in auto)

lemma obuf_put_contents_append:
  assumes "obuf_inv_at k buf"
    and "iov_len (o_iov buf ! o_pos buf) + length xs \<le> o_capacity buf ! o_pos buf"
  shows "obuf_contents (obuf_put buf (length xs))
           (memcpy mem (iov_base (o_iov buf ! o_pos buf) + iov_len (o_iov buf ! o_pos buf)) xs)
         = obuf_contents buf mem @ xs"
proof -
  let ?mem' = "memcpy mem (iov_base (o_iov buf ! o_pos buf) + iov_len (o_iov buf ! o_pos buf)) xs"
  have p: "o_pos buf < length (o_iov buf)" using assms(1) by (rule obuf_inv_at_pos)
  have fr: "\<And>a. obuf_used buf a \<Longrightarrow> ?mem' a = mem a"
    using assms by (rule obuf_used_frame)
  have "map (seg_bytes ?mem') (take (o_pos buf) (o_iov buf))
          = map (seg_bytes mem) (take (o_pos buf) (o_iov buf))"
    using fr p by (intro seg_bytes_take_frame) auto
  then have "concat (map (seg_bytes ?mem') (take (o_pos buf) (o_iov buf)))
          = concat (map (seg_bytes mem) (take (o_pos buf) (o_iov buf)))"
    by (rule arg_cong)
  moreover have "obuf_contents buf mem
          = concat (map (seg_bytes mem) (take (o_pos buf) (o_iov buf)))
            @ mem_read mem (iov_base (o_iov buf ! o_pos buf)) (iov_len (o_iov buf ! o_pos buf))"
    using p by (simp add: obuf_contents_alt take_Suc_conv_app_nth seg_bytes_def)
  ultimately show ?thesis
    by (simp only: obuf_put_contents [OF assms(1)] append_assoc)
qed

lemma obuf_extends_refl: "obuf_extends buf mem buf mem"
  by (simp add: obuf_extends_def)

lemma obuf_extends_used:
  assumes "obuf_extends buf mem buf' mem'" and "obuf_used buf a"
  shows "obuf_used buf' a"
proof -
  from assms(2) obtain i where i: "i \<le> o_pos buf" "iov_base (o_iov buf ! i) \<le> a"
    "a < iov_base (o_iov buf ! i) + iov_len (o_iov buf ! i)"
    by (auto simp: obuf_used_def)
  have "iov_base (o_iov buf' ! i) \<le> a \<and> a < iov_base (o_iov buf' ! i) + iov_len (o_iov buf' ! i)"
  proof (cases "i = o_pos buf")
    case True
    with i have "0 < iov_len (o_iov buf ! o_pos buf)" by simp
    with assms(1) True i show ?thesis by (auto simp: obuf_extends_def)
  next
    case False
    with i assms(1) show ?thesis by (simp add: obuf_extends_def)
  qed
  moreover from i assms(1) have "i \<le> o_pos buf'" by (simp add: obuf_extends_def)
  ultimately show ?thesis by (auto simp: obuf_used_def)
qed

lemma obuf_extends_trans:
  assumes a: "obuf_extends b1 m1 b2 m2" and b: "obuf_extends b2 m2 b3 m3"
  shows "obuf_extends b1 m1 b3 m3"
proof -
  have mem: "\<And>a. obuf_used b1 a \<Longrightarrow> m3 a = m1 a"
    using a b obuf_extends_used [OF a] by (simp add: obuf_extends_def)
  have pos: "o_pos b1 \<le> o_pos b3" using a b by (simp add: obuf_extends_def)
  have low: "\<And>i. i < o_pos b1 \<Longrightarrow> o_iov b3 ! i = o_iov b1 ! i"
    using a b by (simp add: obuf_extends_def)
  have cur: "iov_len (o_iov b1 ! o_pos b1) \<le> iov_len (o_iov b3 ! o_pos b1)
      \<and> (0 < iov_len (o_iov b1 ! o_pos b1)
            \<longrightarrow> iov_base (o_iov b3 ! o_pos b1) = iov_base (o_iov b1 ! o_pos b1))"
  proof (cases "o_pos b1 = o_pos b2")
    case True
    with a b show ?thesis by (auto simp: obuf_extends_def)
  next
    case False
    with a have "o_pos b1 < o_pos b2" by (simp add: obuf_extends_def)
    with b have "o_iov b3 ! o_pos b1 = o_iov b2 ! o_pos b1" by (simp add: obuf_extends_def)
    with a show ?thesis by (simp add: obuf_extends_def)
  qed
  from mem pos low cur show ?thesis by (simp add: obuf_extends_def)
qed

lemma obuf_put_extends:
  assumes "obuf_inv_at k buf"
    and "iov_len (o_iov buf ! o_pos buf) + length xs \<le> o_capacity buf ! o_pos buf"
  shows "obuf_extends buf mem (obuf_put buf (length xs))
           (memcpy mem (iov_base (o_iov buf ! o_pos buf) + iov_len (o_iov buf ! o_pos buf)) xs)"
  using obuf_used_frame [OF assms] obuf_inv_at_pos [OF assms(1)]
  by (simp add: obuf_extends_def obuf_put_def)

lemma obuf_advance_extends: "obuf_extends buf mem (obuf_advance buf) mem"
  by (simp add: obuf_extends_def obuf_advance_def)

lemma obuf_advance_contents:
  assumes "obuf_inv_at k buf" and "o_pos buf < k"
  shows "obuf_contents (obuf_advance buf) mem = obuf_contents buf mem"
proof -
  have "iov_len (o_iov buf ! Suc (o_pos buf)) = 0"
    using assms by (intro obuf_inv_at_after_pos [of k]) auto
  moreover have "Suc (o_pos buf) < length (o_iov buf)"
    using assms by (simp add: obuf_inv_at_def)
  ultimately show ?thesis
    by (simp add: obuf_contents_alt obuf_advance_def)
       (simp add: take_Suc_conv_app_nth seg_bytes_def mem_read_def)
qed

lemma obuf_new_segment_full:
  "IOBUF_IOV_MAX \<le> o_pos buf + 1 \<Longrightarrow> obuf_new_segment buf sz = Some (Inl OutOfMemory, buf)"
  by (simp add: obuf_new_segment_def obuf_init_pos_def)

lemma obuf_contents_same_prefix:
  assumes "o_pos buf' = o_pos buf" and "o_pos buf < length (o_iov buf)"
    and "length (o_iov buf') = length (o_iov buf)"
    and "take (o_pos buf) (o_iov buf') = take (o_pos buf) (o_iov buf)"
    and "iov_len (o_iov buf' ! o_pos buf) = 0" and "iov_len (o_iov buf ! o_pos buf) = 0"
  shows "obuf_contents buf' mem = obuf_contents buf mem"
  using assms by (simp add: obuf_contents_alt take_Suc_conv_app_nth seg_bytes_def mem_read_def)

lemma obuf_new_segment_cases:
  assumes inv: "obuf_inv_at k buf" and pos: "o_pos buf = k"
  shows "\<exists>res buf'. obuf_new_segment buf sz = Some (res, buf')
           \<and> o_pos buf' = k \<and> iov_len (o_iov buf' ! k) = 0 \<and> o_size buf' = o_size buf
           \<and> obuf_extends buf mem buf' mem
           \<and> obuf_contents buf' mem = obuf_contents buf mem
           \<and> (res = Inl OutOfMemory \<and> obuf_inv_at k buf'
              \<or> res = Inr () \<and> obuf_inv_at (Suc k) buf' \<and> sz \<le> o_capacity buf' ! k)"
proof (cases "IOBUF_IOV_MAX \<le> k + 1")
  case True
  then show ?thesis using assms
    by (simp add: obuf_new_segment_full obuf_extends_refl) (simp add: obuf_inv_at_def)
next
  case False
  let ?c0 = "if k > 0 then o_capacity buf ! (k - 1) * 2 else o_alloc_factor buf"
  have "0 < ?c0" using inv by (auto simp: obuf_inv_at_def)
  then obtain c where c: "grow_capacity ?c0 sz = Some c" "sz \<le> c" "?c0 \<le> c"
    using grow_capacity_total by blast
  then have c0: "0 < c" using \<open>0 < ?c0\<close> by linarith
  have g: "0 < k \<Longrightarrow> grow_capacity (o_capacity buf ! (k - 1) * 2) sz = Some c"
    "k = 0 \<Longrightarrow> grow_capacity (o_alloc_factor buf) sz = Some c"
    using c(1) by simp_all
  have len: "length (o_iov buf) = IOBUF_IOV_MAX" "length (o_capacity buf) = IOBUF_IOV_MAX"
    and capk: "o_capacity buf ! k = 0" and lenk: "iov_len (o_iov buf ! k) = 0"
    using inv by (simp_all add: obuf_inv_at_def)
  let ?buf1 = "buf\<lparr>o_capacity := (o_capacity buf)[k + 1 := 0],
                    o_iov := (o_iov buf)[k + 1 := \<lparr>iov_base = 0, iov_len = 0\<rparr>]\<rparr>"
  show ?thesis
  proof (cases "region_next (o_pool buf) + c \<le> region_limit (o_pool buf)")
    case fits: True
    let ?buf2 = "?buf1\<lparr>o_pool := (o_pool buf)\<lparr>region_next := region_next (o_pool buf) + c\<rparr>,
        o_iov := (o_iov ?buf1)[k := (o_iov ?buf1 ! k)\<lparr>iov_base := region_next (o_pool buf)\<rparr>],
        o_capacity := (o_capacity ?buf1)[k := c]\<rparr>"
    have r: "obuf_new_segment buf sz = Some (Inr (), ?buf2)"
      using False g fits pos len capk lenk
      by (auto simp: obuf_new_segment_def obuf_init_pos_def obuf_alloc_pos_def region_alloc_def)
    have i: "obuf_inv_at (Suc k) ?buf2"
      using inv pos c0 False unfolding obuf_inv_at_def
      by (auto simp: nth_list_update take_Suc_conv_app_nth less_Suc_eq)
    have e: "obuf_extends buf mem ?buf2 mem"
      using pos len False lenk by (simp add: obuf_extends_def)
    have ct: "obuf_contents ?buf2 mem = obuf_contents buf mem"
      using pos len False lenk by (intro obuf_contents_same_prefix) simp_all
    from r i e ct show ?thesis using pos len False lenk c by simp
  next
    case full: False
    have r: "obuf_new_segment buf sz = Some (Inl OutOfMemory, ?buf1)"
      using False g full pos len capk
      by (auto simp: obuf_new_segment_def obuf_init_pos_def obuf_alloc_pos_def region_alloc_def)
    have i: "obuf_inv_at k ?buf1"
      using inv pos unfolding obuf_inv_at_def
      by (auto simp: nth_list_update take_Suc_conv_app_nth)
    have e: "obuf_extends buf mem ?buf1 mem"
      using pos len False by (simp add: obuf_extends_def)
    have ct: "obuf_contents ?buf1 mem = obuf_contents buf mem"
      using pos len False lenk by (intro obuf_contents_same_prefix) simp_all
    from r i e ct show ?thesis using pos len False lenk c by simp
  qed
qed

lemma obuf_dup_loop_fits:
  "iov_len (o_iov buf ! o_pos buf) + length data \<le> o_capacity buf ! o_pos buf
     \<Longrightarrow> obuf_dup_loop buf mem data = Some (Inr data, buf, mem)"
  by (subst obuf_dup_loop.simps) (simp add: Let_def)

lemma obuf_dup_loop_fill:
  assumes "\<not> iov_len (o_iov buf ! o_pos buf) + length data \<le> o_capacity buf ! o_pos buf"
    and "iov_len (o_iov buf ! o_pos buf) < o_capacity buf ! o_pos buf"
    and "o_pos buf + 1 < IOBUF_IOV_MAX" and "o_pos buf < length (o_iov buf)"
  shows "obuf_dup_loop buf mem data =
           obuf_dup_loop
             (obuf_advance (obuf_put buf (o_capacity buf ! o_pos buf - iov_len (o_iov buf ! o_pos buf))))
             (memcpy mem (iov_base (o_iov buf ! o_pos buf) + iov_len (o_iov buf ! o_pos buf))
                (take (o_capacity buf ! o_pos buf - iov_len (o_iov buf ! o_pos buf)) data))
             (drop (o_capacity buf ! o_pos buf - iov_len (o_iov buf ! o_pos buf)) data)"
  using assms
  by (subst obuf_dup_loop.simps) (auto simp: Let_def obuf_advance_def obuf_put_def)

lemma obuf_dup_loop_skip:
  assumes "\<not> iov_len (o_iov buf ! o_pos buf) + length data \<le> o_capacity buf ! o_pos buf"
    and "iov_len (o_iov buf ! o_pos buf) = o_capacity buf ! o_pos buf"
    and "o_capacity buf ! o_pos buf \<noteq> 0"
    and "o_pos buf + 1 < IOBUF_IOV_MAX"
  shows "obuf_dup_loop buf mem data = obuf_dup_loop (obuf_advance buf) mem data"
  using assms
  by (subst obuf_dup_loop.simps) (auto simp: Let_def obuf_advance_def)

lemma obuf_dup_loop_new:
  assumes "\<not> iov_len (o_iov buf ! o_pos buf) + length data \<le> o_capacity buf ! o_pos buf"
    and "o_capacity buf ! o_pos buf = 0"
  shows "obuf_dup_loop buf mem data =
           (case obuf_new_segment buf (length data) of
              None \<Rightarrow> None
            | Some (Inl e, buf') \<Rightarrow> Some (Inl e, buf', mem)
            | Some (Inr _, buf') \<Rightarrow> Some (Inr data, buf', mem))"
  using assms
  by (subst obuf_dup_loop.simps)
     (auto simp: Let_def obuf_new_segment_def obuf_init_pos_def split: prod.splits sum.splits option.splits)

lemma obuf_room_at_end: "o_pos buf = k \<Longrightarrow> obuf_room k buf = 0"
  by (simp add: obuf_room_def)

lemma obuf_room_advance:
  "o_pos buf < k \<Longrightarrow> obuf_room k buf
     = (o_capacity buf ! o_pos buf - iov_len (o_iov buf ! o_pos buf)) + obuf_room k (obuf_advance buf)"
  by (simp add: obuf_room_def obuf_advance_def upt_conv_Cons)

lemma obuf_room_advance_put:
  "obuf_room k (obuf_advance (obuf_put buf n)) = obuf_room k (obuf_advance buf)"
  unfolding obuf_room_def obuf_advance_def obuf_put_def
  by (rule arg_cong [where f = sum_list], rule map_cong) auto

lemma obuf_put_zero: "obuf_inv_at k buf \<Longrightarrow> obuf_put buf 0 = buf"
  by (simp add: obuf_put_def)

lemma memcpy_nil: "memcpy mem a [] = mem"
  by (rule ext) (auto simp: memcpy_def)

lemma obuf_inv_at_cap_zero: "obuf_inv_at k buf \<Longrightarrow> o_capacity buf ! o_pos buf = 0 \<longleftrightarrow> o_pos buf = k"
  by (cases "o_pos buf = k") (auto simp: obuf_inv_at_def)

lemma obuf_inv_at_len_cap:
  "obuf_inv_at k buf \<Longrightarrow> iov_len (o_iov buf ! o_pos buf) \<le> o_capacity buf ! o_pos buf"
  by (cases "o_pos buf = k") (auto simp: obuf_inv_at_def)

lemma obuf_dup_step:
  fixes buf :: obuf and mem :: memory and xs :: "byte list"
  assumes inv: "obuf_inv_at k buf" and pk: "o_pos buf < k"
    and n: "iov_len (o_iov buf ! o_pos buf) + length xs \<le> o_capacity buf ! o_pos buf"
  defines "buf1 \<equiv> obuf_advance (obuf_put buf (length xs))"
    and "mem1 \<equiv> memcpy mem (iov_base (o_iov buf ! o_pos buf) + iov_len (o_iov buf ! o_pos buf)) xs"
  shows "obuf_inv_at k buf1" and "obuf_extends buf mem buf1 mem1"
    and "obuf_contents buf1 mem1 = obuf_contents buf mem @ xs"
    and "o_pos buf1 = Suc (o_pos buf)"
    and "obuf_room k buf
           = (o_capacity buf ! o_pos buf - iov_len (o_iov buf ! o_pos buf)) + obuf_room k buf1"
proof -
  have i1: "obuf_inv_at k (obuf_put buf (length xs))" using inv n by (rule obuf_put_inv)
  have p1: "o_pos (obuf_put buf (length xs)) = o_pos buf" by (simp add: obuf_put_def)
  show "obuf_inv_at k buf1"
    unfolding buf1_def using i1 pk p1 by (intro obuf_advance_inv) simp_all
  show "obuf_extends buf mem buf1 mem1"
    unfolding buf1_def mem1_def
    by (rule obuf_extends_trans [OF obuf_put_extends [OF inv n] obuf_advance_extends])
  show "obuf_contents buf1 mem1 = obuf_contents buf mem @ xs"
    unfolding buf1_def mem1_def
    using obuf_advance_contents [OF i1] pk p1 obuf_put_contents_append [OF inv n] by simp
  show "o_pos buf1 = Suc (o_pos buf)"
    by (simp add: buf1_def obuf_advance_def obuf_put_def)
  show "obuf_room k buf
           = (o_capacity buf ! o_pos buf - iov_len (o_iov buf ! o_pos buf)) + obuf_room k buf1"
    unfolding buf1_def using obuf_room_advance [OF pk] by (simp add: obuf_room_advance_put)
qed

lemma obuf_room_ge:
  "o_pos buf < k \<Longrightarrow> o_capacity buf ! o_pos buf - iov_len (o_iov buf ! o_pos buf) \<le> obuf_room k buf"
  by (simp add: obuf_room_advance)

lemma obuf_dup_loop_spec:
  "obuf_inv_at k buf \<Longrightarrow>
   \<exists>res buf' mem' k'. obuf_dup_loop buf mem data = Some (res, buf', mem')
      \<and> obuf_inv_at k' buf' \<and> obuf_extends buf mem buf' mem'
      \<and> (case res of
           Inl e \<Rightarrow> e = OutOfMemory \<and> obuf_room k buf < length data
                    \<and> (\<exists>n. obuf_contents buf' mem' = obuf_contents buf mem @ take n data)
         | Inr rest \<Rightarrow> obuf_contents buf' mem' @ rest = obuf_contents buf mem @ data
                    \<and> iov_len (o_iov buf' ! o_pos buf') + length rest
                          \<le> o_capacity buf' ! o_pos buf'
                    \<and> \<not> (Suc k = IOBUF_IOV_MAX \<and> obuf_room k buf < length data))"
proof (induction "k - o_pos buf" arbitrary: buf mem data rule: less_induct)
  case less
  note inv = \<open>obuf_inv_at k buf\<close>
  let ?len = "iov_len (o_iov buf ! o_pos buf)"
  let ?cap = "o_capacity buf ! o_pos buf"
  let ?base = "iov_base (o_iov buf ! o_pos buf)"
  have p: "o_pos buf < length (o_iov buf)" using inv by (rule obuf_inv_at_pos)
  have lc: "?len \<le> ?cap" using inv by (rule obuf_inv_at_len_cap)
  have kmax: "k < IOBUF_IOV_MAX" and pk: "o_pos buf \<le> k" using inv by (simp_all add: obuf_inv_at_def)
  show ?case
  proof (cases "?len + length data \<le> ?cap")
    case True
    have "\<not> obuf_room k buf < length data"
    proof (cases "o_pos buf = k")
      case True
      with inv \<open>?len + length data \<le> ?cap\<close> show ?thesis by (simp add: obuf_inv_at_def)
    next
      case False
      with pk have "o_pos buf < k" by simp
      from obuf_room_ge [OF this] True show ?thesis by simp
    qed
    with True inv show ?thesis
      by (auto simp: obuf_dup_loop_fits obuf_extends_refl)
  next
    case nofit: False
    show ?thesis
    proof (cases "?cap = 0")
      case True
      with inv have pos: "o_pos buf = k" by (simp add: obuf_inv_at_cap_zero)
      from nofit True lc have dpos: "0 < length data" by simp
      from obuf_new_segment_cases [OF inv pos, of "length data" mem]
      obtain res buf' where
        r: "obuf_new_segment buf (length data) = Some (res, buf')"
        and r1: "o_pos buf' = k" "iov_len (o_iov buf' ! k) = 0"
          "obuf_extends buf mem buf' mem" "obuf_contents buf' mem = obuf_contents buf mem"
        and r2: "res = Inl OutOfMemory \<and> obuf_inv_at k buf'
              \<or> res = Inr () \<and> obuf_inv_at (Suc k) buf' \<and> length data \<le> o_capacity buf' ! k"
        by blast
      from r2 show ?thesis
      proof
        assume a: "res = Inl OutOfMemory \<and> obuf_inv_at k buf'"
        have "obuf_contents buf' mem = obuf_contents buf mem @ take 0 data" using r1 by simp
        with a r r1 dpos pos show ?thesis
          by (auto simp: obuf_dup_loop_new [OF nofit True] obuf_room_at_end)
      next
        assume a: "res = Inr () \<and> obuf_inv_at (Suc k) buf' \<and> length data \<le> o_capacity buf' ! k"
        have "Suc k \<noteq> IOBUF_IOV_MAX"
          using a r pos by (auto simp: obuf_new_segment_full)
        with a r r1 show ?thesis
          by (auto simp: obuf_dup_loop_new [OF nofit True])
      qed
    next
      case capnz: False
      with inv have "o_pos buf \<noteq> k" by (simp add: obuf_inv_at_cap_zero)
      with pk have pk': "o_pos buf < k" by simp
      with kmax have smax: "o_pos buf + 1 < IOBUF_IOV_MAX" by simp
      define xs where "xs = take (?cap - ?len) data"
      have lxs: "length xs = ?cap - ?len" using nofit by (simp add: xs_def)
      define buf1 where "buf1 = obuf_advance (obuf_put buf (length xs))"
      define mem1 where "mem1 = memcpy mem (?base + ?len) xs"
      define data1 where "data1 = drop (?cap - ?len) data"
      have n: "?len + length xs \<le> ?cap" using lc lxs by simp
      note st = obuf_dup_step(1) [OF inv pk' n, folded buf1_def]
        obuf_dup_step(2) [OF inv pk' n, of mem, folded buf1_def mem1_def]
        obuf_dup_step(3) [OF inv pk' n, of mem, folded buf1_def mem1_def]
        obuf_dup_step(4) [OF inv pk' n, folded buf1_def]
        obuf_dup_step(5) [OF inv pk' n, folded buf1_def]
      have unf: "obuf_dup_loop buf mem data = obuf_dup_loop buf1 mem1 data1"
      proof (cases "?len < ?cap")
        case True
        have "obuf_dup_loop buf mem data =
                obuf_dup_loop (obuf_advance (obuf_put buf (?cap - ?len)))
                  (memcpy mem (?base + ?len) xs) data1"
          unfolding xs_def data1_def by (rule obuf_dup_loop_fill [OF nofit True smax p])
        then show ?thesis
          unfolding buf1_def mem1_def lxs .
      next
        case False
        with lc have eq: "?len = ?cap" by simp
        then have "xs = []" using lxs by simp
        then show ?thesis
          unfolding buf1_def mem1_def data1_def using eq inv
          by (simp add: obuf_dup_loop_skip [OF nofit eq capnz smax] obuf_put_zero memcpy_nil)
      qed
      have "k - o_pos buf1 < k - o_pos buf" using st(4) pk' by simp
      from less.hyps [OF this st(1), of mem1 data1]
      obtain res buf' mem' k' where
        h: "obuf_dup_loop buf1 mem1 data1 = Some (res, buf', mem')"
          "obuf_inv_at k' buf'" "obuf_extends buf1 mem1 buf' mem'"
        and hc: "case res of
           Inl e \<Rightarrow> e = OutOfMemory \<and> obuf_room k buf1 < length data1
                    \<and> (\<exists>n. obuf_contents buf' mem' = obuf_contents buf1 mem1 @ take n data1)
         | Inr rest \<Rightarrow> obuf_contents buf' mem' @ rest = obuf_contents buf1 mem1 @ data1
                    \<and> iov_len (o_iov buf' ! o_pos buf') + length rest
                          \<le> o_capacity buf' ! o_pos buf'
                    \<and> \<not> (Suc k = IOBUF_IOV_MAX \<and> obuf_room k buf1 < length data1)"
        by blast
      have ext: "obuf_extends buf mem buf' mem'"
        by (rule obuf_extends_trans [OF st(2) h(3)])
      have dd: "xs @ data1 = data" by (simp add: xs_def data1_def)
      have ld: "length data = (?cap - ?len) + length data1"
        using nofit by (simp add: data1_def)
      have room: "obuf_room k buf1 < length data1 \<longleftrightarrow> obuf_room k buf < length data"
        using st(5) ld by simp
      have tk: "\<And>n. xs @ take n data1 = take (?cap - ?len + n) data"
        by (simp add: xs_def data1_def take_add)
      show ?thesis
      proof (cases res)
        case (Inl e)
        with hc obtain n where "e = OutOfMemory" "obuf_room k buf1 < length data1"
          "obuf_contents buf' mem' = obuf_contents buf1 mem1 @ take n data1"
          by auto
        then have "e = OutOfMemory" "obuf_room k buf < length data"
          "obuf_contents buf' mem' = obuf_contents buf mem @ take (?cap - ?len + n) data"
          using room st(3) tk by simp_all
        with Inl h ext unf show ?thesis by auto
      next
        case (Inr rest)
        with hc have "obuf_contents buf' mem' @ rest = obuf_contents buf mem @ data"
          "iov_len (o_iov buf' ! o_pos buf') + length rest \<le> o_capacity buf' ! o_pos buf'"
          "\<not> (Suc k = IOBUF_IOV_MAX \<and> obuf_room k buf < length data)"
          using room st(3) dd by simp_all
        with Inr h ext unf show ?thesis by auto
      qed
    qed
  qed
qed

lemma obuf_dup_unfold:
  "obuf_dup buf mem data =
     (case obuf_dup_loop buf mem data of
        None \<Rightarrow> None
      | Some (Inl e, buf1, mem1) \<Rightarrow> Some (Inl e, buf1, mem1)
      | Some (Inr rest, buf1, mem1) \<Rightarrow>
          if \<not> iov_len (o_iov (obuf_put buf1 (length rest)) ! o_pos buf1)
                 \<le> o_capacity buf1 ! o_pos buf1
          then Some (Inl AssertionFailed, obuf_put buf1 (length rest),
                 memcpy mem1 (iov_base (o_iov buf1 ! o_pos buf1) + iov_len (o_iov buf1 ! o_pos buf1)) rest)
          else Some (Inr (), obuf_put buf1 (length rest),
                 memcpy mem1 (iov_base (o_iov buf1 ! o_pos buf1) + iov_len (o_iov buf1 ! o_pos buf1)) rest))"
  by (simp add: obuf_dup_def obuf_put_def Let_def split: option.splits sum.splits prod.splits)

lemma obuf_put_len:
  "o_pos buf < length (o_iov buf) \<Longrightarrow>
     iov_len (o_iov (obuf_put buf n) ! o_pos buf) = iov_len (o_iov buf ! o_pos buf) + n"
  by (simp add: obuf_put_def)

lemma obuf_dup_spec:
  assumes inv: "obuf_inv_at k buf"
  shows "\<exists>res buf' mem' k'. obuf_dup buf mem data = Some (res, buf', mem')
      \<and> obuf_inv_at k' buf' \<and> obuf_extends buf mem buf' mem'
      \<and> (res = Inr () \<and> obuf_contents buf' mem' = obuf_contents buf mem @ data
             \<and> \<not> (Suc k = IOBUF_IOV_MAX \<and> obuf_room k buf < length data)
          \<or> res = Inl OutOfMemory \<and> obuf_room k buf < length data
             \<and> (\<exists>n. obuf_contents buf' mem' = obuf_contents buf mem @ take n data))"
proof -
  from obuf_dup_loop_spec [OF inv, of mem data]
  obtain res buf1 mem1 k1 where
    h: "obuf_dup_loop buf mem data = Some (res, buf1, mem1)"
       "obuf_inv_at k1 buf1" "obuf_extends buf mem buf1 mem1"
    and hc: "case res of
           Inl e \<Rightarrow> e = OutOfMemory \<and> obuf_room k buf < length data
                    \<and> (\<exists>n. obuf_contents buf1 mem1 = obuf_contents buf mem @ take n data)
         | Inr rest \<Rightarrow> obuf_contents buf1 mem1 @ rest = obuf_contents buf mem @ data
                    \<and> iov_len (o_iov buf1 ! o_pos buf1) + length rest
                          \<le> o_capacity buf1 ! o_pos buf1
                    \<and> \<not> (Suc k = IOBUF_IOV_MAX \<and> obuf_room k buf < length data)"
    by blast
  show ?thesis
  proof (cases res)
    case (Inl e)
    with h hc show ?thesis by (auto simp: obuf_dup_unfold)
  next
    case (Inr rest)
    with hc have c: "obuf_contents buf1 mem1 @ rest = obuf_contents buf mem @ data"
      and n: "iov_len (o_iov buf1 ! o_pos buf1) + length rest \<le> o_capacity buf1 ! o_pos buf1"
      and r: "\<not> (Suc k = IOBUF_IOV_MAX \<and> obuf_room k buf < length data)"
      by simp_all
    let ?buf2 = "obuf_put buf1 (length rest)"
    let ?mem2 = "memcpy mem1 (iov_base (o_iov buf1 ! o_pos buf1) + iov_len (o_iov buf1 ! o_pos buf1)) rest"
    have p: "o_pos buf1 < length (o_iov buf1)" using h(2) by (rule obuf_inv_at_pos)
    have d: "obuf_dup buf mem data = Some (Inr (), ?buf2, ?mem2)"
      using h(1) Inr n p by (simp add: obuf_dup_unfold obuf_put_len)
    have "obuf_inv_at k1 ?buf2" using h(2) n by (rule obuf_put_inv)
    moreover have "obuf_extends buf mem ?buf2 ?mem2"
      by (rule obuf_extends_trans [OF h(3) obuf_put_extends [OF h(2) n]])
    moreover have "obuf_contents ?buf2 ?mem2 = obuf_contents buf mem @ data"
      using obuf_put_contents_append [OF h(2) n, of mem1] c by simp
    ultimately show ?thesis using d r by blast
  qed
qed

lemma obuf_reserve_slow_spec:
  assumes inv: "obuf_inv_at k buf"
  shows "\<exists>res buf' k'. obuf_reserve_slow buf sz = Some (res, buf')
      \<and> obuf_inv_at k' buf' \<and> obuf_extends buf mem buf' mem
      \<and> obuf_contents buf' mem = obuf_contents buf mem \<and> o_size buf' = o_size buf
      \<and> o_pos buf' = (if 0 < iov_len (o_iov buf ! o_pos buf) then o_pos buf + 1 else o_pos buf)
      \<and> iov_len (o_iov buf' ! o_pos buf) = iov_len (o_iov buf ! o_pos buf)
      \<and> iov_len (o_iov buf' ! o_pos buf') = 0
      \<and> (res = Inl AssertionFailed \<and> o_pos buf' < k \<and> o_capacity buf ! o_pos buf' < sz
          \<or> res = Inl OutOfMemory \<and> o_pos buf' = k
          \<or> res = Inr (iov_base (o_iov buf' ! o_pos buf')) \<and> sz \<le> o_capacity buf' ! o_pos buf'
               \<and> Suc (o_pos buf') < IOBUF_IOV_MAX)"
proof -
  let ?len = "iov_len (o_iov buf ! o_pos buf)"
  define buf1 where "buf1 = (if 0 < ?len then obuf_advance buf else buf)"
  have kmax: "k < IOBUF_IOV_MAX" and pk: "o_pos buf \<le> k"
    and lens: "length (o_iov buf) = IOBUF_IOV_MAX"
    using inv by (simp_all add: obuf_inv_at_def)
  have pk': "0 < ?len \<Longrightarrow> o_pos buf < k"
    using inv pk by (cases "o_pos buf = k") (auto simp: obuf_inv_at_def)
  have i1: "obuf_inv_at k buf1"
    using inv pk' by (auto simp: buf1_def obuf_advance_inv)
  have e1: "obuf_extends buf mem buf1 mem"
    by (simp add: buf1_def obuf_extends_refl obuf_advance_extends)
  have c1: "obuf_contents buf1 mem = obuf_contents buf mem"
    using inv pk' by (auto simp: buf1_def obuf_advance_contents)
  have s1: "o_size buf1 = o_size buf" by (simp add: buf1_def obuf_advance_def)
  have p1: "o_pos buf1 = (if 0 < ?len then o_pos buf + 1 else o_pos buf)"
    by (simp add: buf1_def obuf_advance_def)
  have v1: "o_iov buf1 = o_iov buf" "o_capacity buf1 = o_capacity buf"
    by (simp_all add: buf1_def obuf_advance_def)
  have l1: "iov_len (o_iov buf1 ! o_pos buf1) = 0"
  proof (cases "0 < ?len")
    case True
    with pk' have "o_pos buf < k" by simp
    with inv have "iov_len (o_iov buf ! Suc (o_pos buf)) = 0"
      by (intro obuf_inv_at_after_pos [of k]) auto
    with True show ?thesis by (simp add: buf1_def obuf_advance_def)
  next
    case False
    then show ?thesis by (simp add: buf1_def)
  qed
  have pm: "o_pos buf1 < IOBUF_IOV_MAX"
    using i1 by (simp add: obuf_inv_at_def)
  have unf: "obuf_reserve_slow buf sz =
     (case (if o_capacity buf1 ! o_pos buf1 = 0 then obuf_new_segment buf1 sz
            else if sz > o_capacity buf1 ! o_pos buf1 then Some (Inl AssertionFailed, buf1)
            else Some (Inr (), buf1)) of
        None \<Rightarrow> None
      | Some (Inl e, buf3) \<Rightarrow> Some (Inl e, buf3)
      | Some (Inr _, buf3) \<Rightarrow>
          if \<not> iov_len (o_iov buf3 ! o_pos buf3) + sz \<le> o_capacity buf3 ! o_pos buf3
          then Some (Inl AssertionFailed, buf3)
          else Some (Inr (iov_base (o_iov buf3 ! o_pos buf3) + iov_len (o_iov buf3 ! o_pos buf3)), buf3))"
  proof -
    have ap: "\<And>b p. o_capacity b ! p \<noteq> 0 \<Longrightarrow> obuf_alloc_pos b p sz = Some (Inl AssertionFailed, b)"
      by (simp add: obuf_alloc_pos_def)
    show ?thesis
    proof (cases "0 < ?len")
      case True
      with l1 pm show ?thesis
        by (simp add: obuf_reserve_slow_def buf1_def obuf_advance_def Let_def
              obuf_new_segment_def ap)
    next
      case False
      with l1 pm show ?thesis
        by (simp add: obuf_reserve_slow_def buf1_def Let_def obuf_new_segment_def ap)
    qed
  qed
  show ?thesis
  proof (cases "o_capacity buf1 ! o_pos buf1 = 0")
    case True
    with i1 have pos: "o_pos buf1 = k" by (simp add: obuf_inv_at_cap_zero)
    from obuf_new_segment_cases [OF i1 pos, of sz mem]
    obtain res buf' where
      r: "obuf_new_segment buf1 sz = Some (res, buf')"
      and r1: "o_pos buf' = k" "iov_len (o_iov buf' ! k) = 0" "o_size buf' = o_size buf1"
        "obuf_extends buf1 mem buf' mem" "obuf_contents buf' mem = obuf_contents buf1 mem"
      and r2: "res = Inl OutOfMemory \<and> obuf_inv_at k buf'
            \<or> res = Inr () \<and> obuf_inv_at (Suc k) buf' \<and> sz \<le> o_capacity buf' ! k"
      by blast
    have ext: "obuf_extends buf mem buf' mem" by (rule obuf_extends_trans [OF e1 r1(4)])
    have lp: "iov_len (o_iov buf' ! o_pos buf) = ?len"
    proof (cases "0 < ?len")
      case True
      then have "o_pos buf < o_pos buf1" by (simp add: p1)
      with r1(4) have "o_iov buf' ! o_pos buf = o_iov buf1 ! o_pos buf"
        by (simp add: obuf_extends_def)
      then show ?thesis by (simp add: v1)
    next
      case False
      with p1 pos r1 show ?thesis by simp
    qed
    from r2 show ?thesis
    proof
      assume a: "res = Inl OutOfMemory \<and> obuf_inv_at k buf'"
      with r r1 ext c1 s1 p1 pos lp True show ?thesis
        by (simp add: unf) blast
    next
      assume a: "res = Inr () \<and> obuf_inv_at (Suc k) buf' \<and> sz \<le> o_capacity buf' ! k"
      then have "Suc k < IOBUF_IOV_MAX" by (simp add: obuf_inv_at_def)
      with a r r1 ext c1 s1 p1 pos lp True show ?thesis
        by (simp add: unf) blast
    qed
  next
    case False
    with i1 have "o_pos buf1 \<noteq> k" by (simp add: obuf_inv_at_cap_zero)
    moreover have "o_pos buf1 \<le> k" using i1 by (simp add: obuf_inv_at_def)
    ultimately have lt: "o_pos buf1 < k" by simp
    with kmax have sm: "Suc (o_pos buf1) < IOBUF_IOV_MAX" by simp
    have lp: "iov_len (o_iov buf1 ! o_pos buf) = ?len" by (simp add: v1)
    show ?thesis
      using False i1 e1 c1 s1 p1 l1 lt sm lp
      by (cases "sz > o_capacity buf1 ! o_pos buf1") (auto simp: unf v1)
  qed
qed

lemma obuf_reserve_spec:
  assumes inv: "obuf_inv_at k buf"
  shows "\<exists>res buf' k'. obuf_reserve buf sz = Some (res, buf')
      \<and> obuf_inv_at k' buf' \<and> obuf_extends buf mem buf' mem
      \<and> obuf_contents buf' mem = obuf_contents buf mem \<and> o_size buf' = o_size buf
      \<and> o_pos buf \<le> o_pos buf' \<and> o_pos buf' \<le> o_pos buf + 1
      \<and> iov_len (o_iov buf' ! o_pos buf) = iov_len (o_iov buf ! o_pos buf)
      \<and> (\<forall>ptr. res = Inr ptr \<longrightarrow>
            ptr = iov_base (o_iov buf' ! o_pos buf') + iov_len (o_iov buf' ! o_pos buf')
            \<and> iov_len (o_iov buf' ! o_pos buf') + sz \<le> o_capacity buf' ! o_pos buf')"
proof (cases "iov_len (o_iov buf ! o_pos buf) + sz > o_capacity buf ! o_pos buf")
  case True
  from obuf_reserve_slow_spec [OF inv, of sz mem]
  obtain res buf' k' where
    r: "obuf_reserve_slow buf sz = Some (res, buf')" "obuf_inv_at k' buf'"
      "obuf_extends buf mem buf' mem" "obuf_contents buf' mem = obuf_contents buf mem"
      "o_size buf' = o_size buf"
      "o_pos buf' = (if 0 < iov_len (o_iov buf ! o_pos buf) then o_pos buf + 1 else o_pos buf)"
      "iov_len (o_iov buf' ! o_pos buf) = iov_len (o_iov buf ! o_pos buf)"
      "iov_len (o_iov buf' ! o_pos buf') = 0"
    and c: "res = Inl AssertionFailed \<and> o_pos buf' < k \<and> o_capacity buf ! o_pos buf' < sz
          \<or> res = Inl OutOfMemory \<and> o_pos buf' = k
          \<or> res = Inr (iov_base (o_iov buf' ! o_pos buf')) \<and> sz \<le> o_capacity buf' ! o_pos buf'
               \<and> Suc (o_pos buf') < IOBUF_IOV_MAX"
    by blast
  have "\<forall>ptr. res = Inr ptr \<longrightarrow>
            ptr = iov_base (o_iov buf' ! o_pos buf') + iov_len (o_iov buf' ! o_pos buf')
            \<and> iov_len (o_iov buf' ! o_pos buf') + sz \<le> o_capacity buf' ! o_pos buf'"
    using c r(8) by auto
  moreover have "o_pos buf \<le> o_pos buf' \<and> o_pos buf' \<le> o_pos buf + 1"
    using r(6) by simp
  moreover have "obuf_reserve buf sz = Some (res, buf')"
    using True r(1) by (simp add: obuf_reserve_def)
  ultimately show ?thesis using r(2,3,4,5,7) by blast
next
  case False
  then have "obuf_reserve buf sz
     = Some (Inr (iov_base (o_iov buf ! o_pos buf) + iov_len (o_iov buf ! o_pos buf)), buf)"
    by (simp add: obuf_reserve_def Let_def)
  with False inv show ?thesis
    by (auto simp: obuf_extends_refl)
qed

lemma obuf_alloc_unfold:
  "obuf_alloc buf sz =
     (case (if iov_len (o_iov buf ! o_pos buf) + sz > o_capacity buf ! o_pos buf
            then obuf_reserve_slow buf sz else Some (Inr 0, buf)) of
        None \<Rightarrow> None
      | Some (Inl e, buf1) \<Rightarrow> Some (Inl e, buf1)
      | Some (Inr _, buf1) \<Rightarrow>
          if \<not> iov_len (o_iov (obuf_put buf1 sz) ! o_pos buf1) < o_capacity buf1 ! o_pos buf1
          then Some (Inl AssertionFailed, obuf_put buf1 sz)
          else Some (Inr (iov_base (o_iov buf1 ! o_pos buf1) + iov_len (o_iov buf1 ! o_pos buf1)),
                     obuf_put buf1 sz))"
  by (simp add: obuf_alloc_def obuf_put_def Let_def split: option.splits sum.splits prod.splits)

lemma obuf_alloc_spec:
  assumes inv: "obuf_inv_at k buf"
  shows "\<exists>res buf' k'. obuf_alloc buf sz = Some (res, buf') \<and> obuf_inv_at k' buf'
      \<and> (\<forall>ptr. res = Inr ptr \<longrightarrow> o_size buf' = o_size buf + sz
            \<and> (\<forall>data. length data = sz \<longrightarrow>
                  obuf_extends buf mem buf' (memcpy mem ptr data)
                  \<and> obuf_contents buf' (memcpy mem ptr data) = obuf_contents buf mem @ data))"
proof -
  define r1 where "r1 = (if iov_len (o_iov buf ! o_pos buf) + sz > o_capacity buf ! o_pos buf
            then obuf_reserve_slow buf sz else Some (Inr 0, buf))"
  have "\<exists>res buf1 k1. r1 = Some (res, buf1) \<and> obuf_inv_at k1 buf1
      \<and> obuf_extends buf mem buf1 mem \<and> obuf_contents buf1 mem = obuf_contents buf mem
      \<and> o_size buf1 = o_size buf
      \<and> (\<forall>p. res = Inr p \<longrightarrow>
             iov_len (o_iov buf1 ! o_pos buf1) + sz \<le> o_capacity buf1 ! o_pos buf1)"
  proof (cases "iov_len (o_iov buf ! o_pos buf) + sz > o_capacity buf ! o_pos buf")
    case True
    from obuf_reserve_slow_spec [OF inv, of sz mem]
    obtain res buf' k' where
      r: "obuf_reserve_slow buf sz = Some (res, buf')" "obuf_inv_at k' buf'"
        "obuf_extends buf mem buf' mem" "obuf_contents buf' mem = obuf_contents buf mem"
        "o_size buf' = o_size buf"
        "iov_len (o_iov buf' ! o_pos buf') = 0"
      and c: "res = Inl AssertionFailed \<and> o_pos buf' < k \<and> o_capacity buf ! o_pos buf' < sz
          \<or> res = Inl OutOfMemory \<and> o_pos buf' = k
          \<or> res = Inr (iov_base (o_iov buf' ! o_pos buf')) \<and> sz \<le> o_capacity buf' ! o_pos buf'
               \<and> Suc (o_pos buf') < IOBUF_IOV_MAX"
      by blast
    have "\<forall>p. res = Inr p \<longrightarrow>
             iov_len (o_iov buf' ! o_pos buf') + sz \<le> o_capacity buf' ! o_pos buf'"
      using c r(6) by auto
    moreover have "r1 = Some (res, buf')" using True r(1) by (simp add: r1_def)
    ultimately show ?thesis using r(2,3,4,5) by blast
  next
    case False
    then have "r1 = Some (Inr 0, buf)" by (simp add: r1_def)
    with False inv show ?thesis by (auto simp: obuf_extends_refl)
  qed
  then obtain res buf1 k1 where
    r: "r1 = Some (res, buf1)" and i1: "obuf_inv_at k1 buf1"
    and e1: "obuf_extends buf mem buf1 mem" and c1: "obuf_contents buf1 mem = obuf_contents buf mem"
    and s1: "o_size buf1 = o_size buf"
    and f1: "\<forall>p. res = Inr p \<longrightarrow>
             iov_len (o_iov buf1 ! o_pos buf1) + sz \<le> o_capacity buf1 ! o_pos buf1"
    by blast
  show ?thesis
  proof (cases res)
    case (Inl e)
    with r i1 show ?thesis
      by (auto simp: obuf_alloc_unfold r1_def [symmetric])
  next
    case (Inr p)
    with f1 have n: "iov_len (o_iov buf1 ! o_pos buf1) + sz \<le> o_capacity buf1 ! o_pos buf1"
      by simp
    let ?ptr = "iov_base (o_iov buf1 ! o_pos buf1) + iov_len (o_iov buf1 ! o_pos buf1)"
    have i2: "obuf_inv_at k1 (obuf_put buf1 sz)" using i1 n by (rule obuf_put_inv)
    have sz: "o_size (obuf_put buf1 sz) = o_size buf + sz" by (simp add: obuf_put_def s1)
    have d: "\<And>data. length data = sz \<Longrightarrow>
                  obuf_extends buf mem (obuf_put buf1 sz) (memcpy mem ?ptr data)
                  \<and> obuf_contents (obuf_put buf1 sz) (memcpy mem ?ptr data)
                       = obuf_contents buf mem @ data"
    proof -
      fix data :: "byte list" assume l: "length data = sz"
      with n have n': "iov_len (o_iov buf1 ! o_pos buf1) + length data
                          \<le> o_capacity buf1 ! o_pos buf1" by simp
      have "obuf_extends buf mem (obuf_put buf1 (length data)) (memcpy mem ?ptr data)"
        by (rule obuf_extends_trans [OF e1 obuf_put_extends [OF i1 n']])
      moreover have "obuf_contents (obuf_put buf1 (length data)) (memcpy mem ?ptr data)
                       = obuf_contents buf mem @ data"
        using obuf_put_contents_append [OF i1 n', of mem] c1 by simp
      ultimately show "obuf_extends buf mem (obuf_put buf1 sz) (memcpy mem ?ptr data)
                  \<and> obuf_contents (obuf_put buf1 sz) (memcpy mem ?ptr data)
                       = obuf_contents buf mem @ data"
        using l by simp
    qed
    show ?thesis
    proof (cases "iov_len (o_iov (obuf_put buf1 sz) ! o_pos buf1) < o_capacity buf1 ! o_pos buf1")
      case True
      with r Inr have "obuf_alloc buf sz = Some (Inr ?ptr, obuf_put buf1 sz)"
        by (simp add: obuf_alloc_unfold r1_def [symmetric])
      with i2 sz d show ?thesis by auto
    next
      case False
      with r Inr have "obuf_alloc buf sz = Some (Inl AssertionFailed, obuf_put buf1 sz)"
        by (simp add: obuf_alloc_unfold r1_def [symmetric])
      with i2 show ?thesis by auto
    qed
  qed
qed



lemma obuf_create_inv:
  assumes "length (o_capacity st) = IOBUF_IOV_MAX" and "length (o_iov st) = IOBUF_IOV_MAX"
    and "0 < af"
  shows "\<exists>buf. obuf_create st pool af = (Inr (), buf) \<and> obuf_inv_at 0 buf
           \<and> obuf_contents buf mem = [] \<and> o_size buf = 0"
proof -
  let ?buf = "st\<lparr>o_pool := pool, o_pos := 0, o_size := 0, o_alloc_factor := af,
                  o_capacity := (o_capacity st)[0 := 0],
                  o_iov := (o_iov st)[0 := \<lparr>iov_base = 0, iov_len = 0\<rparr>]\<rparr>"
  have m: "0 < IOBUF_IOV_MAX" by (simp add: IOBUF_IOV_MAX_def)
  have "obuf_create st pool af = (Inr (), ?buf)"
    using m by (simp add: obuf_create_def obuf_init_pos_def)
  moreover have "obuf_inv_at 0 ?buf"
    using assms m by (simp add: obuf_inv_at_def take_Suc_conv_app_nth)
  moreover have "obuf_contents ?buf mem = []"
    using assms m by (simp add: obuf_contents_def obuf_iovcnt_def)
  ultimately show ?thesis by simp
qed


lemma zero_iov_lens_Suc:
  "zero_iov_lens v lo (Suc hi) =
     (if lo \<le> hi
      then (zero_iov_lens v lo hi)[hi := (zero_iov_lens v lo hi ! hi)\<lparr>iov_len := 0\<rparr>]
      else zero_iov_lens v lo hi)"
  by (simp add: zero_iov_lens_def)

lemma zero_iov_lens_length [simp]: "length (zero_iov_lens v lo hi) = length v"
  by (induction hi) (simp_all add: zero_iov_lens_Suc, simp add: zero_iov_lens_def)

lemma zero_iov_lens_nth:
  "i < length v \<Longrightarrow>
     zero_iov_lens v lo hi ! i = (if lo \<le> i \<and> i < hi then (v ! i)\<lparr>iov_len := 0\<rparr> else v ! i)"
proof (induction hi)
  case 0
  then show ?case by (simp add: zero_iov_lens_def)
next
  case (Suc hi)
  then show ?case
    by (auto simp: zero_iov_lens_Suc nth_list_update less_Suc_eq)
qed

lemma zero_iov_lens_take: "n \<le> lo \<Longrightarrow> take n (zero_iov_lens v lo hi) = take n v"
  by (rule nth_equalityI) (auto simp: zero_iov_lens_nth)

lemma obuf_rollback_fields:
  "o_pos (obuf_rollback_to_svp buf svp) = svp_pos svp"
  "o_size (obuf_rollback_to_svp buf svp) = svp_size svp"
  "o_capacity (obuf_rollback_to_svp buf svp) = o_capacity buf"
  "o_pool (obuf_rollback_to_svp buf svp) = o_pool buf"
  "o_alloc_factor (obuf_rollback_to_svp buf svp) = o_alloc_factor buf"
  "length (o_iov (obuf_rollback_to_svp buf svp)) = length (o_iov buf)"
  by (simp_all add: obuf_rollback_to_svp_def Let_def)

lemma obuf_rollback_nth:
  assumes "i < length (o_iov buf)"
  shows "o_iov (obuf_rollback_to_svp buf svp) ! i =
           (if i = svp_pos svp then (o_iov buf ! i)\<lparr>iov_len := svp_iov_len svp\<rparr>
            else if svp_pos svp < i \<and> i < obuf_iovcnt buf then (o_iov buf ! i)\<lparr>iov_len := 0\<rparr>
            else o_iov buf ! i)"
  using assms
  by (simp add: obuf_rollback_to_svp_def Let_def zero_iov_lens_nth nth_list_update)

lemma obuf_rollback_take:
  "take (svp_pos svp) (o_iov (obuf_rollback_to_svp buf svp)) = take (svp_pos svp) (o_iov buf)"
  by (simp add: obuf_rollback_to_svp_def Let_def zero_iov_lens_take)

lemma obuf_rollback_inv:
  assumes inv: "obuf_inv_at k buf" and v: "svp_valid buf svp"
  shows "obuf_inv_at k (obuf_rollback_to_svp buf svp)"
proof -
  let ?b = "obuf_rollback_to_svp buf svp"
  let ?p = "svp_pos svp"
  have len: "length (o_iov buf) = IOBUF_IOV_MAX" and kmax: "k < IOBUF_IOV_MAX"
    and pk: "o_pos buf \<le> k" and lk: "iov_len (o_iov buf ! k) = 0"
    using inv by (simp_all add: obuf_inv_at_def)
  have pp: "?p \<le> o_pos buf" and sl: "svp_iov_len svp \<le> iov_len (o_iov buf ! ?p)"
    and ss: "svp_size svp = sum_list (map iov_len (take ?p (o_iov buf))) + svp_iov_len svp"
    using v by (simp_all add: svp_valid_def)
  have pl: "?p < length (o_iov buf)" using pp pk kmax len by simp
  have nth: "\<And>i. i \<le> k \<Longrightarrow> o_iov ?b ! i =
           (if i = ?p then (o_iov buf ! i)\<lparr>iov_len := svp_iov_len svp\<rparr>
            else if ?p < i \<and> i < obuf_iovcnt buf then (o_iov buf ! i)\<lparr>iov_len := 0\<rparr>
            else o_iov buf ! i)"
    using kmax len by (intro obuf_rollback_nth) simp
  have after: "\<And>i. ?p < i \<Longrightarrow> i \<le> k \<Longrightarrow> iov_len (o_iov ?b ! i) = 0"
  proof -
    fix i assume i: "?p < i" "i \<le> k"
    show "iov_len (o_iov ?b ! i) = 0"
    proof (cases "i < obuf_iovcnt buf")
      case True
      with i show ?thesis by (simp add: nth)
    next
      case False
      have "iov_len (o_iov buf ! i) = 0"
      proof (cases "o_pos buf < i")
        case True
        with inv i show ?thesis by (intro obuf_inv_at_after_pos [of k]) auto
      next
        case False
        with \<open>\<not> i < obuf_iovcnt buf\<close> show ?thesis
          by (auto simp: obuf_iovcnt_def split: if_splits)
      qed
      with False i show ?thesis by (simp add: nth)
    qed
  qed
  have lenk: "iov_len (o_iov ?b ! k) = 0"
  proof (cases "?p = k")
    case True
    with sl lk show ?thesis by (simp add: nth)
  next
    case False
    with pp pk have "?p < k" by simp
    then show ?thesis by (intro after) simp_all
  qed
  have segs: "\<forall>i<k. 0 < o_capacity ?b ! i
            \<and> iov_len (o_iov ?b ! i) \<le> o_capacity ?b ! i
            \<and> iov_base (o_iov ?b ! i) + o_capacity ?b ! i \<le> region_next (o_pool ?b)
            \<and> (o_pos ?b < i \<longrightarrow> iov_len (o_iov ?b ! i) = 0)
            \<and> (\<forall>j<i. iov_base (o_iov ?b ! j) + o_capacity ?b ! j
                        \<le> iov_base (o_iov ?b ! i))"
  proof (intro allI impI)
    fix i assume ik: "i < k"
    from inv ik have a: "0 < o_capacity buf ! i" "iov_len (o_iov buf ! i) \<le> o_capacity buf ! i"
      "iov_base (o_iov buf ! i) + o_capacity buf ! i \<le> region_next (o_pool buf)"
      "\<forall>j<i. iov_base (o_iov buf ! j) + o_capacity buf ! j \<le> iov_base (o_iov buf ! i)"
      by (simp_all add: obuf_inv_at_def)
    have b: "iov_base (o_iov ?b ! i) = iov_base (o_iov buf ! i)"
      "iov_len (o_iov ?b ! i) \<le> iov_len (o_iov buf ! i)"
      using ik sl by (simp_all add: nth)
    have c: "\<And>j. j < i \<Longrightarrow> iov_base (o_iov ?b ! j) = iov_base (o_iov buf ! j)"
      using ik by (simp add: nth)
    have d: "o_pos ?b < i \<longrightarrow> iov_len (o_iov ?b ! i) = 0"
      using after [of i] ik by (simp add: obuf_rollback_fields)
    from a b c d
    show "0 < o_capacity ?b ! i
            \<and> iov_len (o_iov ?b ! i) \<le> o_capacity ?b ! i
            \<and> iov_base (o_iov ?b ! i) + o_capacity ?b ! i \<le> region_next (o_pool ?b)
            \<and> (o_pos ?b < i \<longrightarrow> iov_len (o_iov ?b ! i) = 0)
            \<and> (\<forall>j<i. iov_base (o_iov ?b ! j) + o_capacity ?b ! j
                        \<le> iov_base (o_iov ?b ! i))"
      by (simp add: obuf_rollback_fields)
  qed
  have size: "o_size ?b = sum_list (map iov_len (take (Suc (o_pos ?b)) (o_iov ?b)))"
    using pl pp pk ss
    by (simp add: obuf_rollback_fields take_Suc_conv_app_nth obuf_rollback_take nth)
  from inv pp pk lenk segs size show ?thesis
    unfolding obuf_inv_at_def [of k ?b]
    by (simp add: obuf_rollback_fields obuf_inv_at_def)
qed

lemma svp_valid_extends:
  assumes i1: "obuf_inv_at k buf" and i2: "obuf_inv_at k' buf'"
    and e: "obuf_extends buf mem buf' mem'"
  shows "svp_valid buf' (obuf_create_svp buf)"
proof -
  have l: "length (o_iov buf) = IOBUF_IOV_MAX" "length (o_iov buf') = IOBUF_IOV_MAX"
    "o_pos buf < IOBUF_IOV_MAX"
    using i1 i2 by (simp_all add: obuf_inv_at_def)
  have "take (o_pos buf) (o_iov buf') = take (o_pos buf) (o_iov buf)"
    using l e by (intro nth_take_lemma) (simp_all add: obuf_extends_def)
  moreover have "o_size buf = sum_list (map iov_len (take (o_pos buf) (o_iov buf)))
                    + iov_len (o_iov buf ! o_pos buf)"
    using i1 l by (simp add: obuf_inv_at_def take_Suc_conv_app_nth)
  ultimately show ?thesis
    using e by (simp add: svp_valid_def obuf_create_svp_def obuf_extends_def)
qed

lemma obuf_rollback_restores:
  assumes i1: "obuf_inv_at k buf" and i2: "obuf_inv_at k' buf'"
    and e: "obuf_extends buf mem buf' mem'"
  defines "b \<equiv> obuf_rollback_to_svp buf' (obuf_create_svp buf)"
  shows "obuf_inv_at k' b" and "o_pos b = o_pos buf" and "o_size b = o_size buf"
    and "\<forall>i\<le>o_pos buf. iov_len (o_iov b ! i) = iov_len (o_iov buf ! i)
           \<and> (0 < iov_len (o_iov buf ! i) \<longrightarrow> iov_base (o_iov b ! i) = iov_base (o_iov buf ! i))
           \<and> seg_bytes mem' (o_iov b ! i) = seg_bytes mem (o_iov buf ! i)"
    and "obuf_contents b mem' = obuf_contents buf mem"
proof -
  have v: "svp_valid buf' (obuf_create_svp buf)" using i1 i2 e by (rule svp_valid_extends)
  show inv: "obuf_inv_at k' b" unfolding b_def using i2 v by (rule obuf_rollback_inv)
  show pos: "o_pos b = o_pos buf"
    by (simp add: b_def obuf_rollback_fields obuf_create_svp_def)
  show "o_size b = o_size buf"
    by (simp add: b_def obuf_rollback_fields obuf_create_svp_def)
  have l: "length (o_iov buf) = IOBUF_IOV_MAX" "length (o_iov buf') = IOBUF_IOV_MAX"
    "o_pos buf < IOBUF_IOV_MAX" "length (o_iov b) = IOBUF_IOV_MAX"
    using i1 i2 inv by (simp_all add: obuf_inv_at_def)
  have fr: "\<And>a. obuf_used buf a \<Longrightarrow> mem' a = mem a"
    using e by (simp add: obuf_extends_def)
  have seg: "iov_len (o_iov b ! i) = iov_len (o_iov buf ! i)
           \<and> (0 < iov_len (o_iov buf ! i) \<longrightarrow> iov_base (o_iov b ! i) = iov_base (o_iov buf ! i))
           \<and> seg_bytes mem' (o_iov b ! i) = seg_bytes mem (o_iov buf ! i)"
    if i: "i \<le> o_pos buf" for i
  proof (cases "i = o_pos buf")
    case True
    have n: "o_iov b ! i = (o_iov buf' ! i)\<lparr>iov_len := iov_len (o_iov buf ! i)\<rparr>"
      using True l unfolding b_def
      by (simp add: obuf_rollback_nth obuf_create_svp_def)
    have bs: "0 < iov_len (o_iov buf ! i) \<longrightarrow> iov_base (o_iov buf' ! i) = iov_base (o_iov buf ! i)"
      using e True by (simp add: obuf_extends_def)
    have "seg_bytes mem' (o_iov b ! i) = seg_bytes mem (o_iov buf ! i)"
    proof (cases "0 < iov_len (o_iov buf ! i)")
      case False
      then show ?thesis by (simp add: n seg_bytes_def mem_read_def)
    next
      case pos: True
      with bs have "seg_bytes mem' (o_iov b ! i) = seg_bytes mem' (o_iov buf ! i)"
        by (simp add: n seg_bytes_def)
      also have "\<dots> = seg_bytes mem (o_iov buf ! i)"
        using fr i by (rule seg_bytes_frame)
      finally show ?thesis .
    qed
    with n bs show ?thesis by simp
  next
    case False
    with i have lt: "i < o_pos buf" by simp
    then have n: "o_iov b ! i = o_iov buf' ! i"
      using l unfolding b_def by (simp add: obuf_rollback_nth obuf_create_svp_def)
    from lt e have "o_iov buf' ! i = o_iov buf ! i" by (simp add: obuf_extends_def)
    with n have "o_iov b ! i = o_iov buf ! i" by simp
    moreover have "seg_bytes mem' (o_iov buf ! i) = seg_bytes mem (o_iov buf ! i)"
      using fr i by (rule seg_bytes_frame)
    ultimately show ?thesis by simp
  qed
  then show "\<forall>i\<le>o_pos buf. iov_len (o_iov b ! i) = iov_len (o_iov buf ! i)
           \<and> (0 < iov_len (o_iov buf ! i) \<longrightarrow> iov_base (o_iov b ! i) = iov_base (o_iov buf ! i))
           \<and> seg_bytes mem' (o_iov b ! i) = seg_bytes mem (o_iov buf ! i)"
    by blast
  have "map (seg_bytes mem') (take (Suc (o_pos buf)) (o_iov b))
          = map (seg_bytes mem) (take (Suc (o_pos buf)) (o_iov buf))"
    using l seg by (intro nth_equalityI) simp_all
  then have "concat (map (seg_bytes mem') (take (Suc (o_pos buf)) (o_iov b)))
          = concat (map (seg_bytes mem) (take (Suc (o_pos buf)) (o_iov buf)))"
    by (rule arg_cong)
  then show "obuf_contents b mem' = obuf_contents buf mem"
    using l pos by (simp add: obuf_contents_alt)
qed

lemma obuf_reset_inv:
  assumes inv: "obuf_inv_at k buf"
  shows "obuf_inv_at k (obuf_reset buf)" and "o_size (obuf_reset buf) = 0"
    and "o_pos (obuf_reset buf) = 0" and "obuf_contents (obuf_reset buf) mem = []"
proof -
  let ?b = "obuf_reset buf"
  have len: "length (o_iov buf) = IOBUF_IOV_MAX" and kmax: "k < IOBUF_IOV_MAX"
    and pk: "o_pos buf \<le> k" and lk: "iov_len (o_iov buf ! k) = 0"
    using inv by (simp_all add: obuf_inv_at_def)
  have nth: "\<And>i. i \<le> k \<Longrightarrow> o_iov ?b ! i =
           (if i < obuf_iovcnt buf then (o_iov buf ! i)\<lparr>iov_len := 0\<rparr> else o_iov buf ! i)"
    using kmax len by (simp add: obuf_reset_def Let_def zero_iov_lens_nth)
  have z: "\<And>i. i \<le> k \<Longrightarrow> iov_len (o_iov ?b ! i) = 0"
  proof -
    fix i assume i: "i \<le> k"
    show "iov_len (o_iov ?b ! i) = 0"
    proof (cases "i < obuf_iovcnt buf")
      case True
      with i show ?thesis by (simp add: nth)
    next
      case False
      have "iov_len (o_iov buf ! i) = 0"
      proof (cases "o_pos buf < i")
        case True
        with inv i show ?thesis by (intro obuf_inv_at_after_pos [of k]) auto
      next
        case False
        with \<open>\<not> i < obuf_iovcnt buf\<close> show ?thesis
          by (auto simp: obuf_iovcnt_def split: if_splits)
      qed
      with False i show ?thesis by (simp add: nth)
    qed
  qed
  have f: "o_pos ?b = 0" "o_size ?b = 0" "o_capacity ?b = o_capacity buf"
    "o_pool ?b = o_pool buf" "o_alloc_factor ?b = o_alloc_factor buf"
    "length (o_iov ?b) = length (o_iov buf)"
    by (simp_all add: obuf_reset_def Let_def)
  have b: "\<And>i. i \<le> k \<Longrightarrow> iov_base (o_iov ?b ! i) = iov_base (o_iov buf ! i)"
    by (simp add: nth)
  show "o_size ?b = 0" "o_pos ?b = 0" by (simp_all add: f)
  show "obuf_inv_at k ?b"
    using inv z b len kmax unfolding obuf_inv_at_def [of k ?b]
    by (simp add: f obuf_inv_at_def take_Suc_conv_app_nth)
  show "obuf_contents ?b mem = []"
    using z [of 0] len kmax
    by (simp add: obuf_contents_def obuf_iovcnt_def f)
qed


section \<open>Input buffer: defragmentation and failure\<close>

text \<open>
  Claim C5. If the unconsumed bytes plus the requested size fit into the current capacity,
  \<^verbatim>\<open>ibuf_reserve\<close> returns normally without touching the slab cache: \<open>buf\<close> and the capacity
  are unchanged. The size is unchanged, the unconsumed bytes read from the new \<open>pos\<close> are the
  bytes that were unconsumed before, and at least the requested size is free after \<open>end\<close>.
  On the fast path nothing changes at all; on the defragmenting path \<open>pos\<close> equals \<open>buf\<close>
  afterwards. The input buffer is assumed to satisfy \<open>buf \<le> pos \<le> end \<le> buf + capacity\<close>.
\<close>

theorem ibuf_reserve_defragment:
  assumes "i_buf ib \<le> i_pos ib" and "i_pos ib \<le> i_end ib"
    and "i_end ib \<le> i_buf ib + i_capacity ib"
    and "sz + (i_end ib - i_pos ib) \<le> i_capacity ib"
  shows "\<exists>ib' mem'. ibuf_reserve ra ib sc mem sz = Some (Inr (), ib', sc, mem')
           \<and> i_buf ib' = i_buf ib \<and> ibuf_capacity ib' = ibuf_capacity ib
           \<and> ibuf_size ib' = ibuf_size ib
           \<and> mem_read mem' (i_pos ib') (i_end ib' - i_pos ib')
               = mem_read mem (i_pos ib) (i_end ib - i_pos ib)
           \<and> sz \<le> ibuf_unused ib'
           \<and> (sz \<le> ibuf_unused ib \<longrightarrow> ib' = ib \<and> mem' = mem)
           \<and> (\<not> sz \<le> ibuf_unused ib \<longrightarrow> i_pos ib' = i_buf ib')"
proof (cases "sz \<le> ibuf_unused ib")
  case True
  then show ?thesis by (simp add: ibuf_reserve_def)
next
  case False
  let ?n = "i_end ib - i_pos ib"
  have "ibuf_reserve ra ib sc mem sz =
          Some (Inr (), ib\<lparr>i_pos := i_buf ib, i_end := i_buf ib + ?n\<rparr>, sc,
                memmove mem (i_buf ib) (i_pos ib) ?n)"
    using False assms by (simp add: ibuf_reserve_def ibuf_size_def)
  moreover have "mem_read (memmove mem (i_buf ib) (i_pos ib) ?n) (i_buf ib) ?n
                   = mem_read mem (i_pos ib) ?n"
    using mem_read_memcpy_same [of mem "i_buf ib" "mem_read mem (i_pos ib) ?n"]
    by (simp add: memmove_def)
  ultimately show ?thesis
    using False assms by (auto simp: ibuf_size_def ibuf_unused_def ibuf_capacity_def)
qed

theorem ibuf_reserve_defragment_witness:
  "i_buf demo_ibuf \<le> i_pos demo_ibuf \<and> i_pos demo_ibuf \<le> i_end demo_ibuf
   \<and> i_end demo_ibuf \<le> i_buf demo_ibuf + i_capacity demo_ibuf
   \<and> 4 + (i_end demo_ibuf - i_pos demo_ibuf) \<le> i_capacity demo_ibuf
   \<and> \<not> 4 \<le> ibuf_unused demo_ibuf
   \<and> (\<exists>ib' mem'. ibuf_reserve 16320 demo_ibuf demo_slabc demo_mem 4
                     = Some (Inr (), ib', demo_slabc, mem')
           \<and> i_buf ib' = 100 \<and> i_pos ib' = 100 \<and> ibuf_capacity ib' = 16
           \<and> ibuf_size ib' = Inr 6
           \<and> mem_read mem' (i_pos ib') (i_end ib' - i_pos ib') = mem_read demo_mem 110 6)"
proof -
  have h: "i_buf demo_ibuf \<le> i_pos demo_ibuf" "i_pos demo_ibuf \<le> i_end demo_ibuf"
    "i_end demo_ibuf \<le> i_buf demo_ibuf + i_capacity demo_ibuf"
    "4 + (i_end demo_ibuf - i_pos demo_ibuf) \<le> i_capacity demo_ibuf"
    by (simp_all add: demo_ibuf_def)
  have u: "\<not> 4 \<le> ibuf_unused demo_ibuf"
    by (simp add: demo_ibuf_def ibuf_unused_def)
  from ibuf_reserve_defragment [OF h, of 16320 demo_slabc demo_mem] u
  obtain ib' mem' where
    "ibuf_reserve 16320 demo_ibuf demo_slabc demo_mem 4 = Some (Inr (), ib', demo_slabc, mem')"
    "i_buf ib' = i_buf demo_ibuf" "ibuf_capacity ib' = ibuf_capacity demo_ibuf"
    "ibuf_size ib' = ibuf_size demo_ibuf"
    "mem_read mem' (i_pos ib') (i_end ib' - i_pos ib')
       = mem_read demo_mem (i_pos demo_ibuf) (i_end demo_ibuf - i_pos demo_ibuf)"
    "i_pos ib' = i_buf ib'"
    by blast
  then have "ibuf_reserve 16320 demo_ibuf demo_slabc demo_mem 4
                     = Some (Inr (), ib', demo_slabc, mem')
           \<and> i_buf ib' = 100 \<and> i_pos ib' = 100 \<and> ibuf_capacity ib' = 16
           \<and> ibuf_size ib' = Inr 6
           \<and> mem_read mem' (i_pos ib') (i_end ib' - i_pos ib') = mem_read demo_mem 110 6"
    by (simp add: demo_ibuf_def ibuf_capacity_def ibuf_size_def)
  with h u show ?thesis by blast
qed



section \<open>The input/output pair: idle and pinned units\<close>




section \<open>The scenario with growth factor 128\<close>

lemmas obuf_eval = obuf_create_def obuf_init_pos_def obuf_dup_def obuf_alloc_pos_def
  region_alloc_def IOBUF_IOV_MAX_def Let_def obuf_reserve_slow_def obuf_reserve_def
  obuf_alloc_def obuf_book_def obuf_create_svp_def obuf_rollback_to_svp_def obuf_iovcnt_def
  obuf_size_def zero_iov_lens_def

lemma scenario_buf0_eq:
  "scenario_buf0 =
     \<lparr>o_pool = \<lparr>region_next = 1000, region_limit = 100000\<rparr>, o_size = 0,
        o_pos = 0, o_alloc_factor = 128,
        o_capacity = (replicate 32 5)[0 := 0],
        o_iov = (replicate 32 \<lparr>iov_base = 77, iov_len = 3\<rparr>)
                  [0 := \<lparr>iov_base = 0, iov_len = 0\<rparr>]\<rparr>"
  by (simp add: scenario_buf0_def uninit_obuf_def demo_pool_def obuf_eval)

lemma scenario_dup1:
  "obuf_dup scenario_buf0 demo_mem scenario_A =
     Some (Inr (),
       \<lparr>o_pool = \<lparr>region_next = 1128, region_limit = 100000\<rparr>, o_size = 100,
          o_pos = 0, o_alloc_factor = 128,
          o_capacity = (replicate 32 5)[0 := 0, Suc 0 := 0, 0 := 128],
          o_iov = (replicate 32 \<lparr>iov_base = 77, iov_len = 3\<rparr>)
                    [0 := \<lparr>iov_base = 0, iov_len = 0\<rparr>,
                     Suc 0 := \<lparr>iov_base = 0, iov_len = 0\<rparr>,
                     0 := \<lparr>iov_base = 1000, iov_len = 100\<rparr>]\<rparr>,
       memcpy demo_mem 1000 (replicate 100 1))"
  by (simp add: scenario_buf0_eq scenario_A_def obuf_eval obuf_dup_loop.simps
        grow_capacity.simps)

lemma scenario1_eq:
  "scenario1 =
     (\<lparr>o_pool = \<lparr>region_next = 1128, region_limit = 100000\<rparr>, o_size = 100,
        o_pos = 0, o_alloc_factor = 128,
        o_capacity = (replicate 32 5)[0 := 0, Suc 0 := 0, 0 := 128],
        o_iov = (replicate 32 \<lparr>iov_base = 77, iov_len = 3\<rparr>)
                  [0 := \<lparr>iov_base = 0, iov_len = 0\<rparr>,
                   Suc 0 := \<lparr>iov_base = 0, iov_len = 0\<rparr>,
                   0 := \<lparr>iov_base = 1000, iov_len = 100\<rparr>]\<rparr>,
      memcpy demo_mem 1000 (replicate 100 1))"
  by (simp add: scenario1_def scenario_dup1)

lemma scenario_dup2:
  "obuf_dup (fst scenario1) (snd scenario1) scenario_B =
     Some (Inr (),
       \<lparr>o_pool = \<lparr>region_next = 1384, region_limit = 100000\<rparr>, o_size = 150,
          o_pos = Suc 0, o_alloc_factor = 128,
          o_capacity = (replicate 32 5)
                         [0 := 0, Suc 0 := 0, 0 := 128, Suc (Suc 0) := 0, Suc 0 := 256],
          o_iov = (replicate 32 \<lparr>iov_base = 77, iov_len = 3\<rparr>)
                    [0 := \<lparr>iov_base = 0, iov_len = 0\<rparr>,
                     Suc 0 := \<lparr>iov_base = 0, iov_len = 0\<rparr>,
                     0 := \<lparr>iov_base = 1000, iov_len = 128\<rparr>,
                     Suc (Suc 0) := \<lparr>iov_base = 0, iov_len = 0\<rparr>,
                     Suc 0 := \<lparr>iov_base = 1128, iov_len = 22\<rparr>]\<rparr>,
       memcpy (memcpy (memcpy demo_mem 1000 (replicate 100 1)) 1100 (replicate 28 2))
         1128 (replicate 22 2))"
  by (simp add: scenario1_eq scenario_B_def obuf_eval obuf_dup_loop.simps
        grow_capacity.simps)

lemma scenario2_eq:
  "scenario2 =
     (\<lparr>o_pool = \<lparr>region_next = 1384, region_limit = 100000\<rparr>, o_size = 150,
        o_pos = Suc 0, o_alloc_factor = 128,
        o_capacity = (replicate 32 5)
                       [0 := 0, Suc 0 := 0, 0 := 128, Suc (Suc 0) := 0, Suc 0 := 256],
        o_iov = (replicate 32 \<lparr>iov_base = 77, iov_len = 3\<rparr>)
                  [0 := \<lparr>iov_base = 0, iov_len = 0\<rparr>,
                   Suc 0 := \<lparr>iov_base = 0, iov_len = 0\<rparr>,
                   0 := \<lparr>iov_base = 1000, iov_len = 128\<rparr>,
                   Suc (Suc 0) := \<lparr>iov_base = 0, iov_len = 0\<rparr>,
                   Suc 0 := \<lparr>iov_base = 1128, iov_len = 22\<rparr>]\<rparr>,
      memcpy (memcpy (memcpy demo_mem 1000 (replicate 100 1)) 1100 (replicate 28 2))
        1128 (replicate 22 2))"
  by (simp add: scenario2_def scenario_dup2)

lemma scenario3_facts:
  "o_pos scenario3 = 0" "o_size scenario3 = 100"
  "iov_len (o_iov scenario3 ! 0) = 100" "iov_len (o_iov scenario3 ! 1) = 0"
  "o_capacity scenario3 ! 0 = 128" "o_capacity scenario3 ! 1 = 256"
  by (simp_all add: scenario3_def scenario1_eq scenario2_eq obuf_eval)

text \<open>
  Claim C7, as the spec states it, fails on the code: of the 50 bytes of the second append,
  28 (not 30) go to segment 0, which then holds 128 bytes, and 22 (not 20) go to
  segment 1.
\<close>

theorem scenario_spill_counterexample:
  "obuf_dup (fst scenario1) (snd scenario1) scenario_B = Some (Inr (), scenario2)
   \<and> length scenario_B = 50
   \<and> \<not> (iov_len (o_iov (fst scenario2) ! 0) - iov_len (o_iov (fst scenario1) ! 0) = 30
          \<and> iov_len (o_iov (fst scenario2) ! 1) = 20)"
  by (simp add: scenario_dup2 scenario2_eq) (simp add: scenario1_eq scenario_B_def)

text \<open>
  Claim C7, amended. With growth factor 128, appending 100 bytes leaves size 100 in
  segment 0 (capacity 128, iovec count 1). Appending 50 more bytes puts 28 of them into
  segment 0, filling it to 128, and the other 22 into a newly allocated segment 1 of
  capacity 256; the size is 150 and the iovec count 2. Rolling back to the savepoint taken at
  size 100 gives size 100 and iovec count 1 again. This holds for every struct of 32 slots
  before \<^verbatim>\<open>obuf_create\<close>, every region with 384 bytes left and all data of these lengths.
\<close>

theorem scenario_128:
  assumes "length (o_capacity st) = IOBUF_IOV_MAX" and "length (o_iov st) = IOBUF_IOV_MAX"
    and "region_next pool + 384 \<le> region_limit pool"
    and "length A = 100" and "length B = 50"
  shows "\<exists>b0 b1 m1 b2 m2.
           obuf_create st pool 128 = (Inr (), b0)
         \<and> obuf_dup b0 mem A = Some (Inr (), b1, m1)
         \<and> obuf_size b1 = 100 \<and> obuf_iovcnt b1 = 1
         \<and> iov_len (o_iov b1 ! 0) = 100 \<and> o_capacity b1 ! 0 = 128
         \<and> obuf_dup b1 m1 B = Some (Inr (), b2, m2)
         \<and> obuf_size b2 = 150 \<and> obuf_iovcnt b2 = 2
         \<and> iov_len (o_iov b2 ! 0) = 128 \<and> iov_len (o_iov b2 ! 1) = 22
         \<and> o_capacity b2 ! 1 = 256
         \<and> obuf_size (obuf_rollback_to_svp b2 (obuf_create_svp b1)) = 100
         \<and> obuf_iovcnt (obuf_rollback_to_svp b2 (obuf_create_svp b1)) = 1"
proof -
  have l0: "length (o_capacity st) = 32" "length (o_iov st) = 32"
    using assms(1,2) by (simp_all add: IOBUF_IOV_MAX_def)
  have "\<exists>b0. obuf_create st pool 128 = (Inr (), b0)
      \<and> o_pool b0 = pool \<and> o_size b0 = 0 \<and> o_pos b0 = 0 \<and> o_alloc_factor b0 = 128
      \<and> o_capacity b0 = (o_capacity st)[0 := 0]
      \<and> o_iov b0 = (o_iov st)[0 := \<lparr>iov_base = 0, iov_len = 0\<rparr>]"
    by (simp add: obuf_eval)
  then obtain b0 where b0: "obuf_create st pool 128 = (Inr (), b0)"
    and b0f: "o_pool b0 = pool" "o_size b0 = 0" "o_pos b0 = 0" "o_alloc_factor b0 = 128"
      "o_capacity b0 = (o_capacity st)[0 := 0]"
      "o_iov b0 = (o_iov st)[0 := \<lparr>iov_base = 0, iov_len = 0\<rparr>]"
    by blast
  have r1: "region_next pool + 128 \<le> region_limit pool" using assms(3) by simp
  have "\<exists>b1 m1. obuf_dup b0 mem A = Some (Inr (), b1, m1)
      \<and> o_pool b1 = pool\<lparr>region_next := region_next pool + 128\<rparr> \<and> o_size b1 = 100
      \<and> o_pos b1 = 0 \<and> o_alloc_factor b1 = 128
      \<and> o_capacity b1 = (o_capacity st)[0 := 0, Suc 0 := 0, 0 := 128]
      \<and> o_iov b1 = (o_iov st)[0 := \<lparr>iov_base = 0, iov_len = 0\<rparr>,
                     Suc 0 := \<lparr>iov_base = 0, iov_len = 0\<rparr>,
                     0 := \<lparr>iov_base = region_next pool, iov_len = 100\<rparr>]"
    using l0 r1 assms(4)
    by (simp add: b0f obuf_eval obuf_dup_loop.simps [of b0] grow_capacity.simps)
  then obtain b1 m1 where d1: "obuf_dup b0 mem A = Some (Inr (), b1, m1)"
    and b1f: "o_pool b1 = pool\<lparr>region_next := region_next pool + 128\<rparr>" "o_size b1 = 100"
      "o_pos b1 = 0" "o_alloc_factor b1 = 128"
      "o_capacity b1 = (o_capacity st)[0 := 0, Suc 0 := 0, 0 := 128]"
      "o_iov b1 = (o_iov st)[0 := \<lparr>iov_base = 0, iov_len = 0\<rparr>,
                     Suc 0 := \<lparr>iov_base = 0, iov_len = 0\<rparr>,
                     0 := \<lparr>iov_base = region_next pool, iov_len = 100\<rparr>]"
    by blast
  have r2: "region_next pool + 128 + 256 \<le> region_limit pool" using assms(3) by simp
  have "\<exists>b2 m2. obuf_dup b1 m1 B = Some (Inr (), b2, m2)
      \<and> o_size b2 = 150 \<and> o_pos b2 = 1
      \<and> o_capacity b2 = (o_capacity st)
                         [0 := 0, Suc 0 := 0, 0 := 128, Suc (Suc 0) := 0, Suc 0 := 256]
      \<and> o_iov b2 = (o_iov st)[0 := \<lparr>iov_base = 0, iov_len = 0\<rparr>,
                     Suc 0 := \<lparr>iov_base = 0, iov_len = 0\<rparr>,
                     0 := \<lparr>iov_base = region_next pool, iov_len = 128\<rparr>,
                     Suc (Suc 0) := \<lparr>iov_base = 0, iov_len = 0\<rparr>,
                     Suc 0 := \<lparr>iov_base = region_next pool + 128, iov_len = 22\<rparr>]"
    using l0 r2 assms(5)
    by (simp add: b1f obuf_eval obuf_dup_loop.simps grow_capacity.simps)
  then obtain b2 m2 where d2: "obuf_dup b1 m1 B = Some (Inr (), b2, m2)"
    and b2f: "o_size b2 = 150" "o_pos b2 = 1"
      "o_capacity b2 = (o_capacity st)
                         [0 := 0, Suc 0 := 0, 0 := 128, Suc (Suc 0) := 0, Suc 0 := 256]"
      "o_iov b2 = (o_iov st)[0 := \<lparr>iov_base = 0, iov_len = 0\<rparr>,
                     Suc 0 := \<lparr>iov_base = 0, iov_len = 0\<rparr>,
                     0 := \<lparr>iov_base = region_next pool, iov_len = 128\<rparr>,
                     Suc (Suc 0) := \<lparr>iov_base = 0, iov_len = 0\<rparr>,
                     Suc 0 := \<lparr>iov_base = region_next pool + 128, iov_len = 22\<rparr>]"
    by blast
  have "obuf_size b1 = 100 \<and> obuf_iovcnt b1 = 1
         \<and> iov_len (o_iov b1 ! 0) = 100 \<and> o_capacity b1 ! 0 = 128"
    using l0 by (simp add: b1f obuf_size_def obuf_iovcnt_def)
  moreover have "obuf_size b2 = 150 \<and> obuf_iovcnt b2 = 2
         \<and> iov_len (o_iov b2 ! 0) = 128 \<and> iov_len (o_iov b2 ! 1) = 22
         \<and> o_capacity b2 ! 1 = 256"
    using l0 by (simp add: b2f obuf_size_def obuf_iovcnt_def)
  moreover have "obuf_size (obuf_rollback_to_svp b2 (obuf_create_svp b1)) = 100
         \<and> obuf_iovcnt (obuf_rollback_to_svp b2 (obuf_create_svp b1)) = 1"
    using l0 by (simp add: b1f b2f obuf_eval)
  ultimately show ?thesis using b0 d1 d2 by blast
qed

theorem scenario_128_witness:
  "obuf_create uninit_obuf demo_pool 128 = (Inr (), scenario_buf0)
   \<and> obuf_dup scenario_buf0 demo_mem scenario_A = Some (Inr (), scenario1)
   \<and> obuf_size (fst scenario1) = 100 \<and> obuf_iovcnt (fst scenario1) = 1
   \<and> obuf_dup (fst scenario1) (snd scenario1) scenario_B = Some (Inr (), scenario2)
   \<and> obuf_size (fst scenario2) = 150 \<and> obuf_iovcnt (fst scenario2) = 2
   \<and> iov_len (o_iov (fst scenario2) ! 0) = 128 \<and> iov_len (o_iov (fst scenario2) ! 1) = 22
   \<and> o_capacity (fst scenario2) ! 1 = 256
   \<and> obuf_size scenario3 = 100 \<and> obuf_iovcnt scenario3 = 1"
proof -
  have h: "length (o_capacity uninit_obuf) = IOBUF_IOV_MAX"
    "length (o_iov uninit_obuf) = IOBUF_IOV_MAX"
    "region_next demo_pool + 384 \<le> region_limit demo_pool"
    "length scenario_A = 100" "length scenario_B = 50"
    by (simp_all add: uninit_obuf_def IOBUF_IOV_MAX_def demo_pool_def scenario_A_def
          scenario_B_def)
  from scenario_128 [OF h, of demo_mem]
  obtain b0 b1 m1 b2 m2 where
    r: "obuf_create uninit_obuf demo_pool 128 = (Inr (), b0)"
       "obuf_dup b0 demo_mem scenario_A = Some (Inr (), b1, m1)"
       "obuf_dup b1 m1 scenario_B = Some (Inr (), b2, m2)"
    and f: "obuf_size b1 = 100" "obuf_iovcnt b1 = 1" "obuf_size b2 = 150" "obuf_iovcnt b2 = 2"
       "iov_len (o_iov b2 ! 0) = 128" "iov_len (o_iov b2 ! 1) = 22" "o_capacity b2 ! 1 = 256"
       "obuf_size (obuf_rollback_to_svp b2 (obuf_create_svp b1)) = 100"
       "obuf_iovcnt (obuf_rollback_to_svp b2 (obuf_create_svp b1)) = 1"
    by blast
  from r(1) have b0: "b0 = scenario_buf0" by (simp add: scenario_buf0_def)
  from r(2) have s1: "scenario1 = (b1, m1)" by (simp add: scenario1_def b0)
  from r(3) have s2: "scenario2 = (b2, m2)" by (simp add: scenario2_def s1)
  have s3: "scenario3 = obuf_rollback_to_svp b2 (obuf_create_svp b1)"
    by (simp add: scenario3_def s1 s2)
  from r f show ?thesis by (simp add: b0 s1 s2 s3)
qed

text \<open>
  Claim C3 at the failing input: segment 0 has capacity 128 and holds 100 bytes, and 28
  bytes, exactly the free space, are reserved, written and allocated. \<^verbatim>\<open>obuf_reserve\<close>
  returns the address after the 100 bytes; the closing assertion of \<^verbatim>\<open>obuf_alloc\<close>,
  \<^verbatim>\<open>iov_len < capacity\<close>, fails.
\<close>

theorem reserve_alloc_exact_fit_asserts:
  "o_capacity (fst scenario1) ! o_pos (fst scenario1)
     - iov_len (o_iov (fst scenario1) ! o_pos (fst scenario1)) = 28
   \<and> obuf_reserve (fst scenario1) 28 = Some (Inr 1100, fst scenario1)
   \<and> map_option fst (obuf_alloc (fst scenario1) 28) = Some (Inl AssertionFailed)
   \<and> map_option fst (obuf_reserve_write_alloc (fst scenario1) (snd scenario1)
        (replicate 28 3)) = Some (Inl AssertionFailed)"
  by (simp add: scenario1_eq obuf_eval obuf_reserve_write_alloc_def)

text \<open>
  Claim C6 at the failing input: after the rollback of the scenario the current segment 0
  holds 100 bytes and segment 1 has capacity 256. \<^verbatim>\<open>obuf_reserve_slow\<close> for 300 bytes moves
  to segment 1 and calls \<^verbatim>\<open>obuf_alloc_pos\<close>, whose first assertion,
  \<^verbatim>\<open>capacity[pos] == 0\<close>, fails.
\<close>

theorem reserve_slow_undersized_asserts:
  "iov_len (o_iov scenario3 ! o_pos scenario3) = 100
   \<and> o_capacity scenario3 ! (o_pos scenario3 + 1) = 256
   \<and> map_option fst (obuf_reserve_slow scenario3 300) = Some (Inl AssertionFailed)"
  by (simp add: scenario3_def scenario1_eq scenario2_eq obuf_eval)


section \<open>Reachable states are well-formed\<close>

lemma obuf_inv_atI: "obuf_inv_at k buf \<Longrightarrow> obuf_inv buf"
  by (auto simp: obuf_inv_def obuf_inv_at_def)

lemma obuf_book_inv:
  assumes inv: "obuf_inv_at k buf" and b: "obuf_book buf sz = Some (res, buf')"
  shows "obuf_inv buf'"
proof -
  from obuf_reserve_spec [OF inv, of sz "\<lambda>a. 0"]
  obtain r1 b1 k1 where r: "obuf_reserve buf sz = Some (r1, b1)" "obuf_inv_at k1 b1"
    by blast
  show ?thesis
  proof (cases r1)
    case (Inl e)
    with r b show ?thesis by (auto simp: obuf_book_def intro: obuf_inv_atI)
  next
    case (Inr p)
    from obuf_alloc_spec [OF r(2), of sz "\<lambda>a. 0"]
    obtain r2 b2 k2 where a: "obuf_alloc b1 sz = Some (r2, b2)" "obuf_inv_at k2 b2"
      by blast
    with r b Inr show ?thesis
      by (cases r2) (auto simp: obuf_book_def Let_def intro: obuf_inv_atI)
  qed
qed

lemma obuf_reachable_inv: "obuf_reachable buf \<Longrightarrow> obuf_inv buf"
proof (induction rule: obuf_reachable.induct)
  case (create st af pool buf)
  with obuf_create_inv [of st af pool "\<lambda>a. 0"] show ?case
    by (auto intro: obuf_inv_atI)
next
  case (dup buf mem data res buf' mem')
  then obtain k where "obuf_inv_at k buf" by (auto simp: obuf_inv_def)
  from obuf_dup_spec [OF this, of mem data] dup.hyps(2) show ?case
    by (auto intro: obuf_inv_atI)
next
  case (reserve buf sz res1 buf')
  then obtain k where "obuf_inv_at k buf" by (auto simp: obuf_inv_def)
  from obuf_reserve_spec [OF this, of sz "\<lambda>a. 0"] reserve.hyps(2) show ?case
    by (auto intro: obuf_inv_atI)
next
  case (reserve_slow buf sz res1 buf')
  then obtain k where "obuf_inv_at k buf" by (auto simp: obuf_inv_def)
  from obuf_reserve_slow_spec [OF this, of sz "\<lambda>a. 0"] reserve_slow.hyps(2) show ?case
    by (auto intro: obuf_inv_atI)
next
  case (alloc buf sz res1 buf')
  then obtain k where "obuf_inv_at k buf" by (auto simp: obuf_inv_def)
  from obuf_alloc_spec [OF this, of sz "\<lambda>a. 0"] alloc.hyps(2) show ?case
    by (auto intro: obuf_inv_atI)
next
  case (book buf sz res2 buf')
  then obtain k where "obuf_inv_at k buf" by (auto simp: obuf_inv_def)
  from obuf_book_inv [OF this book.hyps(2)] show ?case .
next
  case (rollback buf svp)
  then obtain k where "obuf_inv_at k buf" by (auto simp: obuf_inv_def)
  from obuf_rollback_inv [OF this rollback.hyps(2)] show ?case by (rule obuf_inv_atI)
next
  case (reset buf)
  then obtain k where "obuf_inv_at k buf" by (auto simp: obuf_inv_def)
  from obuf_reset_inv(1) [OF this] show ?case by (rule obuf_inv_atI)
qed


text \<open>
  The sequence reserve, write, alloc, when it returns normally: the size grows by the
  number of bytes written, the bytes are appended to the contents and stand at the address
  that \<^verbatim>\<open>obuf_reserve\<close> returned, and everything the buffer held before is unchanged.
\<close>

lemma obuf_reserve_write_alloc_spec:
  assumes inv: "obuf_inv_at k buf"
    and r: "obuf_reserve_write_alloc buf mem data = Some (Inr p, buf', mem')"
  shows "obuf_inv buf'" and "obuf_size buf' = obuf_size buf + length data"
    and "obuf_extends buf mem buf' mem'"
    and "obuf_contents buf' mem' = obuf_contents buf mem @ data"
    and "mem_read mem' p (length data) = data"
proof -
  let ?n = "length data"
  from obuf_reserve_spec [OF inv, of ?n mem]
  obtain res b1 k1 where
    rs: "obuf_reserve buf ?n = Some (res, b1)" and i1: "obuf_inv_at k1 b1"
    and e1: "obuf_extends buf mem b1 mem" and c1: "obuf_contents b1 mem = obuf_contents buf mem"
    and s1: "o_size b1 = o_size buf"
    and pt: "\<forall>ptr. res = Inr ptr \<longrightarrow>
            ptr = iov_base (o_iov b1 ! o_pos b1) + iov_len (o_iov b1 ! o_pos b1)
            \<and> iov_len (o_iov b1 ! o_pos b1) + ?n \<le> o_capacity b1 ! o_pos b1"
    by blast
  let ?ptr = "iov_base (o_iov b1 ! o_pos b1) + iov_len (o_iov b1 ! o_pos b1)"
  from r rs obtain ptr where res: "res = Inr ptr"
    by (cases res) (simp_all add: obuf_reserve_write_alloc_def)
  with pt have ptr: "ptr = ?ptr"
    and n: "iov_len (o_iov b1 ! o_pos b1) + ?n \<le> o_capacity b1 ! o_pos b1"
    by simp_all
  have p1: "o_pos b1 < length (o_iov b1)" using i1 by (rule obuf_inv_at_pos)
  from r rs res have a: "\<exists>x. obuf_alloc b1 ?n = Some (Inr p, buf') \<and> mem' = memcpy mem ptr data"
    by (auto simp: obuf_reserve_write_alloc_def split: option.splits sum.splits)
  then have al: "obuf_alloc b1 ?n = Some (Inr p, buf')" and m: "mem' = memcpy mem ptr data"
    by simp_all
  from al n have b: "buf' = obuf_put b1 ?n" and pp: "p = ?ptr"
    by (simp_all add: obuf_alloc_unfold split: if_splits)
  show "obuf_inv buf'" unfolding b using obuf_put_inv [OF i1 n] by (rule obuf_inv_atI)
  show "obuf_size buf' = obuf_size buf + length data"
    by (simp add: b obuf_put_def obuf_size_def s1)
  show "obuf_extends buf mem buf' mem'"
    unfolding b m ptr by (rule obuf_extends_trans [OF e1 obuf_put_extends [OF i1 n]])
  show "obuf_contents buf' mem' = obuf_contents buf mem @ data"
    unfolding b m ptr using obuf_put_contents_append [OF i1 n, of mem] c1 by simp
  show "mem_read mem' p (length data) = data"
    unfolding m ptr pp by (rule mem_read_memcpy_same)
qed


section \<open>Appending with obuf_dup\<close>

lemma obuf_dups_spec:
  "obuf_inv_at k buf \<Longrightarrow>
   \<exists>res buf' mem' k'. obuf_appends buf mem (map Dup chunks) = Some (res, buf', mem')
      \<and> obuf_inv_at k' buf'
      \<and> (res = Inr () \<and> obuf_contents buf' mem' = obuf_contents buf mem @ concat chunks
          \<or> res = Inl OutOfMemory)"
proof (induction chunks arbitrary: k buf mem)
  case Nil
  then show ?case by auto
next
  case (Cons c cs)
  from obuf_dup_spec [OF Cons.prems, of mem c]
  obtain res buf1 mem1 k1 where
    r: "obuf_dup buf mem c = Some (res, buf1, mem1)" "obuf_inv_at k1 buf1"
    and c: "res = Inr () \<and> obuf_contents buf1 mem1 = obuf_contents buf mem @ c
          \<or> res = Inl OutOfMemory"
    by blast
  from c show ?case
  proof
    assume a: "res = Inr () \<and> obuf_contents buf1 mem1 = obuf_contents buf mem @ c"
    from Cons.IH [OF r(2), of mem1]
    obtain res2 buf2 mem2 k2 where
      r2: "obuf_appends buf1 mem1 (map Dup cs) = Some (res2, buf2, mem2)" "obuf_inv_at k2 buf2"
      and c2: "res2 = Inr () \<and> obuf_contents buf2 mem2 = obuf_contents buf1 mem1 @ concat cs
          \<or> res2 = Inl OutOfMemory"
      by blast
    from a r r2 c2 show ?thesis by auto
  next
    assume "res = Inl OutOfMemory"
    with r show ?thesis by auto
  qed
qed

text \<open>
  Claim C2. From a well-formed buffer (in particular one made by \<^verbatim>\<open>obuf_create\<close> with a
  positive growth factor), appending the chunks of a byte stream in order with \<^verbatim>\<open>obuf_dup\<close>
  always returns, and raises nothing but \<^verbatim>\<open>OutOfMemory\<close>. When all appends succeed, the
  concatenation of the segments in segment order is the previous contents followed by the
  stream, however the stream is split into chunks, and the size has grown by the length of
  the stream; for a buffer that was empty, the contents are the stream and the size is its
  length.
\<close>

theorem obuf_dup_roundtrip:
  assumes "obuf_inv buf"
  shows "\<exists>res buf' mem'.
           obuf_appends buf mem (map Dup chunks) = Some (res, buf', mem') \<and> obuf_inv buf'
         \<and> (res = Inr () \<or> res = Inl OutOfMemory)
         \<and> (res = Inr () \<longrightarrow>
               obuf_contents buf' mem' = obuf_contents buf mem @ concat chunks
             \<and> obuf_size buf' = obuf_size buf + length (concat chunks)
             \<and> (obuf_size buf = 0 \<longrightarrow>
                   obuf_contents buf' mem' = concat chunks
                 \<and> obuf_size buf' = length (concat chunks)))"
proof -
  from assms obtain k where inv: "obuf_inv_at k buf" by (auto simp: obuf_inv_def)
  from obuf_dups_spec [OF inv, of mem chunks]
  obtain res buf' mem' k' where
    r: "obuf_appends buf mem (map Dup chunks) = Some (res, buf', mem')" "obuf_inv_at k' buf'"
    and c: "res = Inr () \<and> obuf_contents buf' mem' = obuf_contents buf mem @ concat chunks
          \<or> res = Inl OutOfMemory"
    by blast
  have l: "length (obuf_contents buf mem) = obuf_size buf"
    "length (obuf_contents buf' mem') = obuf_size buf'"
    using inv r(2) by (simp_all add: obuf_contents_length obuf_size_def)
  have "res = Inr () \<longrightarrow>
               obuf_contents buf' mem' = obuf_contents buf mem @ concat chunks
             \<and> obuf_size buf' = obuf_size buf + length (concat chunks)
             \<and> (obuf_size buf = 0 \<longrightarrow>
                   obuf_contents buf' mem' = concat chunks
                 \<and> obuf_size buf' = length (concat chunks))"
  proof
    assume "res = Inr ()"
    with c have e: "obuf_contents buf' mem' = obuf_contents buf mem @ concat chunks" by auto
    then have "length (obuf_contents buf' mem')
                 = length (obuf_contents buf mem) + length (concat chunks)"
      by (simp only: length_append)
    with l have s: "obuf_size buf' = obuf_size buf + length (concat chunks)" by simp
    have "obuf_contents buf mem = []" if "obuf_size buf = 0"
      using l(1) that by simp
    with e s show "obuf_contents buf' mem' = obuf_contents buf mem @ concat chunks
             \<and> obuf_size buf' = obuf_size buf + length (concat chunks)
             \<and> (obuf_size buf = 0 \<longrightarrow>
                   obuf_contents buf' mem' = concat chunks
                 \<and> obuf_size buf' = length (concat chunks))"
      by simp
  qed
  moreover have "obuf_inv buf'" using r(2) by (rule obuf_inv_atI)
  moreover have "res = Inr () \<or> res = Inl OutOfMemory" using c by blast
  moreover note r(1)
  ultimately show ?thesis
    by (intro exI [of _ res] exI [of _ buf'] exI [of _ mem'] conjI)
qed

lemma scenario_buf0_inv: "obuf_inv_at 0 scenario_buf0"
  by (simp add: scenario_buf0_eq obuf_inv_at_def IOBUF_IOV_MAX_def take_Suc_conv_app_nth)

theorem obuf_dup_roundtrip_witness:
  "obuf_inv scenario_buf0 \<and> obuf_size scenario_buf0 = 0
   \<and> obuf_appends scenario_buf0 demo_mem (map Dup [scenario_A, scenario_B])
        = Some (Inr (), scenario2)
   \<and> obuf_contents (fst scenario2) (snd scenario2) = scenario_A @ scenario_B
   \<and> obuf_size (fst scenario2) = 150"
proof -
  have i: "obuf_inv scenario_buf0" using scenario_buf0_inv by (rule obuf_inv_atI)
  have z: "obuf_size scenario_buf0 = 0" by (simp add: scenario_buf0_eq obuf_size_def)
  have a: "obuf_appends scenario_buf0 demo_mem (map Dup [scenario_A, scenario_B])
        = Some (Inr (), scenario2)"
    using scenario_dup2 by (simp add: scenario_dup1 scenario1_eq scenario2_eq)
  from obuf_dup_roundtrip [OF i, of demo_mem "[scenario_A, scenario_B]"]
  obtain res buf' mem' where
    r: "obuf_appends scenario_buf0 demo_mem (map Dup [scenario_A, scenario_B])
          = Some (res, buf', mem')"
    and c: "res = Inr () \<longrightarrow>
               obuf_contents buf' mem'
                 = obuf_contents scenario_buf0 demo_mem @ concat [scenario_A, scenario_B]
             \<and> obuf_size buf' = obuf_size scenario_buf0 + length (concat [scenario_A, scenario_B])
             \<and> (obuf_size scenario_buf0 = 0 \<longrightarrow>
                   obuf_contents buf' mem' = concat [scenario_A, scenario_B]
                 \<and> obuf_size buf' = length (concat [scenario_A, scenario_B]))"
    by metis
  from r a have "Some (res, buf', mem') = Some (Inr (), scenario2)"
    by (rule trans [OF sym])
  then have e: "res = Inr ()" "(buf', mem') = scenario2"
    by (simp_all only: option.inject prod.inject)
  from c e(1) z
  have "obuf_contents buf' mem' = concat [scenario_A, scenario_B]
      \<and> obuf_size buf' = length (concat [scenario_A, scenario_B])"
    by blast
  then have "obuf_contents (fst scenario2) (snd scenario2) = concat [scenario_A, scenario_B]
      \<and> obuf_size (fst scenario2) = length (concat [scenario_A, scenario_B])"
    by (simp only: e(2) [symmetric] fst_conv snd_conv)
  then have "obuf_contents (fst scenario2) (snd scenario2) = scenario_A @ scenario_B
      \<and> obuf_size (fst scenario2) = 150"
    by (simp add: scenario_A_def scenario_B_def)
  with i z a show ?thesis by blast
qed

section \<open>The segment cap\<close>

lemma sum_list_pow2: "sum_list (map (\<lambda>i. 2 ^ i) [0 ..< n]) = 2 ^ n - (1::nat)"
  by (induction n) simp_all

lemma pow2_double_le: "j < i \<Longrightarrow> (2::nat) ^ j + 2 ^ j \<le> 2 ^ i"
proof -
  assume "j < i"
  then have "(2::nat) ^ Suc j \<le> 2 ^ i" by (intro power_increasing) simp_all
  then show ?thesis by simp
qed

lemma full_obuf_nth:
  "i < 31 \<Longrightarrow> o_capacity full_obuf ! i = 2 ^ i"
  "i < 31 \<Longrightarrow> o_iov full_obuf ! i = \<lparr>iov_base = 2 ^ i, iov_len = 2 ^ i\<rparr>"
  "o_capacity full_obuf ! 31 = 0" "o_iov full_obuf ! 31 = \<lparr>iov_base = 0, iov_len = 0\<rparr>"
  "length (o_capacity full_obuf) = 32" "length (o_iov full_obuf) = 32"
  by (simp_all add: full_obuf_def nth_append)

lemma full_obuf_inv: "obuf_inv_at 31 full_obuf"
proof -
  have s: "sum_list (map iov_len (take (Suc (o_pos full_obuf)) (o_iov full_obuf)))
             = o_size full_obuf"
    by (simp add: full_obuf_def comp_def sum_list_pow2)
  have seg: "\<forall>i<31. 0 < o_capacity full_obuf ! i
            \<and> iov_len (o_iov full_obuf ! i) \<le> o_capacity full_obuf ! i
            \<and> iov_base (o_iov full_obuf ! i) + o_capacity full_obuf ! i
                 \<le> region_next (o_pool full_obuf)
            \<and> (o_pos full_obuf < i \<longrightarrow> iov_len (o_iov full_obuf ! i) = 0)
            \<and> (\<forall>j<i. iov_base (o_iov full_obuf ! j) + o_capacity full_obuf ! j
                        \<le> iov_base (o_iov full_obuf ! i))"
  proof (intro allI impI)
    fix i :: nat assume i: "i < 31"
    have r: "region_next (o_pool full_obuf) = 2 ^ 31" "o_pos full_obuf = 30"
      by (simp_all add: full_obuf_def)
    have "(2::nat) ^ i + 2 ^ i \<le> 2 ^ 31" using i by (rule pow2_double_le)
    moreover have "\<forall>j<i. iov_base (o_iov full_obuf ! j) + o_capacity full_obuf ! j
                        \<le> iov_base (o_iov full_obuf ! i)"
      using i by (simp add: full_obuf_nth pow2_double_le)
    ultimately show "0 < o_capacity full_obuf ! i
            \<and> iov_len (o_iov full_obuf ! i) \<le> o_capacity full_obuf ! i
            \<and> iov_base (o_iov full_obuf ! i) + o_capacity full_obuf ! i
                 \<le> region_next (o_pool full_obuf)
            \<and> (o_pos full_obuf < i \<longrightarrow> iov_len (o_iov full_obuf ! i) = 0)
            \<and> (\<forall>j<i. iov_base (o_iov full_obuf ! j) + o_capacity full_obuf ! j
                        \<le> iov_base (o_iov full_obuf ! i))"
      using i unfolding r by (simp add: full_obuf_nth)
  qed
  have "o_alloc_factor full_obuf = 1" "o_pos full_obuf = 30"
    by (simp_all add: full_obuf_def)
  with s seg show ?thesis
    unfolding obuf_inv_at_def by (simp add: full_obuf_nth IOBUF_IOV_MAX_def)
qed

lemma full_obuf_room: "obuf_room 31 full_obuf = 0"
proof -
  have "o_pos full_obuf = 30" by (simp add: full_obuf_def)
  moreover have "[30 ..< 31] = [30::nat]" by (simp add: upt_rec)
  ultimately show ?thesis by (simp add: obuf_room_def full_obuf_nth)
qed

text \<open>
  Claim C4. Let \<open>k\<close> be the index of the end marker of a well-formed buffer and
  \<open>obuf_room k buf\<close> the free space of the allocated segments from the current one on. If
  \<open>k\<close> is the last slot (\<open>k + 1 = IOBUF_IOV_MAX = 32\<close>) and the data does not fit into that
  free space, so that the append needs a segment beyond the cap, \<^verbatim>\<open>obuf_dup\<close> raises
  \<^verbatim>\<open>OutOfMemory\<close>. Whenever \<^verbatim>\<open>obuf_dup\<close> raises, it raises \<^verbatim>\<open>OutOfMemory\<close>, and the buffer it leaves
  behind is well-formed (so every operation is defined on it), still holds all bytes it held
  before the call at their addresses, followed by a prefix of the data, and a rollback to a
  savepoint taken just before the call gives back the position, size and contents from
  before the call.
\<close>

theorem obuf_dup_segment_cap:
  assumes "obuf_inv_at k buf"
  shows "IOBUF_IOV_MAX = 32
     \<and> (Suc k = IOBUF_IOV_MAX \<and> obuf_room k buf < length data
          \<longrightarrow> (\<exists>buf' mem'. obuf_dup buf mem data = Some (Inl OutOfMemory, buf', mem')))
     \<and> (obuf_dup buf mem data = Some (Inl e, buf', mem') \<longrightarrow>
          e = OutOfMemory \<and> obuf_inv buf' \<and> obuf_extends buf mem buf' mem'
        \<and> (\<exists>n. obuf_contents buf' mem' = obuf_contents buf mem @ take n data)
        \<and> obuf_inv (obuf_rollback_to_svp buf' (obuf_create_svp buf))
        \<and> o_pos (obuf_rollback_to_svp buf' (obuf_create_svp buf)) = o_pos buf
        \<and> obuf_size (obuf_rollback_to_svp buf' (obuf_create_svp buf)) = obuf_size buf
        \<and> obuf_contents (obuf_rollback_to_svp buf' (obuf_create_svp buf)) mem'
            = obuf_contents buf mem)"
proof -
  from obuf_dup_spec [OF assms, of mem data]
  obtain res buf1 mem1 k1 where
    d: "obuf_dup buf mem data = Some (res, buf1, mem1)" and i1: "obuf_inv_at k1 buf1"
    and e1: "obuf_extends buf mem buf1 mem1"
    and c: "res = Inr () \<and> obuf_contents buf1 mem1 = obuf_contents buf mem @ data
             \<and> \<not> (Suc k = IOBUF_IOV_MAX \<and> obuf_room k buf < length data)
          \<or> res = Inl OutOfMemory \<and> obuf_room k buf < length data
             \<and> (\<exists>n. obuf_contents buf1 mem1 = obuf_contents buf mem @ take n data)"
    by blast
  have p1: "Suc k = IOBUF_IOV_MAX \<and> obuf_room k buf < length data
          \<longrightarrow> (\<exists>buf' mem'. obuf_dup buf mem data = Some (Inl OutOfMemory, buf', mem'))"
    using d c by auto
  have p2: "e = OutOfMemory \<and> obuf_inv buf' \<and> obuf_extends buf mem buf' mem'
        \<and> (\<exists>n. obuf_contents buf' mem' = obuf_contents buf mem @ take n data)
        \<and> obuf_inv (obuf_rollback_to_svp buf' (obuf_create_svp buf))
        \<and> o_pos (obuf_rollback_to_svp buf' (obuf_create_svp buf)) = o_pos buf
        \<and> obuf_size (obuf_rollback_to_svp buf' (obuf_create_svp buf)) = obuf_size buf
        \<and> obuf_contents (obuf_rollback_to_svp buf' (obuf_create_svp buf)) mem'
            = obuf_contents buf mem"
    if f: "obuf_dup buf mem data = Some (Inl e, buf', mem')"
  proof -
    from f d have eq: "res = Inl e" "buf1 = buf'" "mem1 = mem'" by simp_all
    with c have "e = OutOfMemory"
      and "\<exists>n. obuf_contents buf' mem' = obuf_contents buf mem @ take n data"
      by auto
    moreover have "obuf_inv buf'" using i1 eq by (auto intro: obuf_inv_atI)
    moreover note rr = obuf_rollback_restores [OF assms i1 e1]
    moreover have "obuf_inv (obuf_rollback_to_svp buf' (obuf_create_svp buf))"
      using rr(1) eq by (auto intro: obuf_inv_atI)
    ultimately show ?thesis
      using e1 eq rr(2,3,5) by (simp add: obuf_size_def)
  qed
  from p1 p2 show ?thesis by (simp add: IOBUF_IOV_MAX_def)
qed

theorem obuf_dup_segment_cap_witness:
  "obuf_inv_at 31 full_obuf \<and> Suc 31 = IOBUF_IOV_MAX
   \<and> obuf_room 31 full_obuf < length [7::byte]
   \<and> (\<exists>buf' mem'. obuf_dup full_obuf demo_mem [7] = Some (Inl OutOfMemory, buf', mem')
         \<and> obuf_inv buf'
         \<and> obuf_size (obuf_rollback_to_svp buf' (obuf_create_svp full_obuf))
             = obuf_size full_obuf
         \<and> obuf_contents (obuf_rollback_to_svp buf' (obuf_create_svp full_obuf)) mem'
             = obuf_contents full_obuf demo_mem)"
proof -
  have h: "Suc 31 = IOBUF_IOV_MAX \<and> obuf_room 31 full_obuf < length [7::byte]"
    by (simp add: IOBUF_IOV_MAX_def full_obuf_room)
  note t = obuf_dup_segment_cap [OF full_obuf_inv, of "[7]" demo_mem]
  from t [THEN conjunct2, THEN conjunct1, THEN mp, OF h]
  obtain buf' mem' where
    d: "obuf_dup full_obuf demo_mem [7] = Some (Inl OutOfMemory, buf', mem')" by blast
  note u = obuf_dup_segment_cap [OF full_obuf_inv, of "[7]" demo_mem OutOfMemory buf' mem',
      THEN conjunct2, THEN conjunct2, THEN mp, OF d]
  from u have "obuf_inv buf'
         \<and> obuf_size (obuf_rollback_to_svp buf' (obuf_create_svp full_obuf))
             = obuf_size full_obuf
         \<and> obuf_contents (obuf_rollback_to_svp buf' (obuf_create_svp full_obuf)) mem'
             = obuf_contents full_obuf demo_mem"
    by blast
  with d h full_obuf_inv show ?thesis by blast
qed


lemma obuf_iovcnt_le:
  assumes "obuf_inv_at k buf"
  shows "obuf_iovcnt buf \<le> k"
proof (cases "0 < iov_len (o_iov buf ! o_pos buf)")
  case True
  with assms have "o_pos buf \<noteq> k" by (auto simp: obuf_inv_at_def)
  moreover from assms have "o_pos buf \<le> k" by (simp add: obuf_inv_at_def)
  ultimately show ?thesis using True by (simp add: obuf_iovcnt_def)
next
  case False
  with assms show ?thesis by (simp add: obuf_iovcnt_def obuf_inv_at_def)
qed

text \<open>
  Claim C9. Every reachable state of an output buffer is well-formed, and in a well-formed
  buffer with end marker \<open>k\<close>: \<open>k\<close> is at most 31, the segments that hold data are the
  \<^verbatim>\<open>obuf_iovcnt\<close> first ones and there are at most \<open>k\<close> of them, so that slot 31 never holds
  data; if the current position is 31, that slot has length 0 and capacity 0. When \<open>k\<close> is
  31, an \<^verbatim>\<open>obuf_dup\<close> whose data exceeds the free space of the allocated segments and an
  \<^verbatim>\<open>obuf_reserve_slow\<close> whose target slot is 31 would have to allocate slot 31; both raise
  \<^verbatim>\<open>OutOfMemory\<close> (from \<^verbatim>\<open>obuf_init_pos\<close> for slot 32) and leave a well-formed buffer.
\<close>

theorem obuf_effective_cap:
  "(obuf_reachable buf \<longrightarrow> obuf_inv buf)
   \<and> (obuf_inv_at k buf \<longrightarrow>
         IOBUF_IOV_MAX - 1 = 31 \<and> k \<le> IOBUF_IOV_MAX - 1 \<and> obuf_iovcnt buf \<le> k
       \<and> (o_pos buf = IOBUF_IOV_MAX - 1 \<longrightarrow>
             iov_len (o_iov buf ! o_pos buf) = 0 \<and> o_capacity buf ! o_pos buf = 0)
       \<and> (k = IOBUF_IOV_MAX - 1 \<and> obuf_room k buf < length data \<longrightarrow>
             (\<exists>buf' mem'. obuf_dup buf mem data = Some (Inl OutOfMemory, buf', mem')
                 \<and> obuf_inv buf'))
       \<and> (k = IOBUF_IOV_MAX - 1
            \<and> (if 0 < iov_len (o_iov buf ! o_pos buf) then o_pos buf + 1 else o_pos buf) = k
            \<longrightarrow> (\<exists>buf'. obuf_reserve_slow buf sz = Some (Inl OutOfMemory, buf')
                     \<and> obuf_inv buf')))"
proof -
  have wf: "IOBUF_IOV_MAX - 1 = 31 \<and> k \<le> IOBUF_IOV_MAX - 1 \<and> obuf_iovcnt buf \<le> k
       \<and> (o_pos buf = IOBUF_IOV_MAX - 1 \<longrightarrow>
             iov_len (o_iov buf ! o_pos buf) = 0 \<and> o_capacity buf ! o_pos buf = 0)
       \<and> (k = IOBUF_IOV_MAX - 1 \<and> obuf_room k buf < length data \<longrightarrow>
             (\<exists>buf' mem'. obuf_dup buf mem data = Some (Inl OutOfMemory, buf', mem')
                 \<and> obuf_inv buf'))
       \<and> (k = IOBUF_IOV_MAX - 1
            \<and> (if 0 < iov_len (o_iov buf ! o_pos buf) then o_pos buf + 1 else o_pos buf) = k
            \<longrightarrow> (\<exists>buf'. obuf_reserve_slow buf sz = Some (Inl OutOfMemory, buf')
                     \<and> obuf_inv buf'))"
    if inv: "obuf_inv_at k buf"
  proof -
    have m: "IOBUF_IOV_MAX - 1 = 31" by (simp add: IOBUF_IOV_MAX_def)
    have "k < IOBUF_IOV_MAX" using inv by (simp add: obuf_inv_at_def)
    then have kb: "k \<le> IOBUF_IOV_MAX - 1" by simp
    have cnt: "obuf_iovcnt buf \<le> k" using inv by (rule obuf_iovcnt_le)
    have last: "iov_len (o_iov buf ! o_pos buf) = 0 \<and> o_capacity buf ! o_pos buf = 0"
      if "o_pos buf = IOBUF_IOV_MAX - 1"
    proof -
      from inv that kb have "o_pos buf = k" by (simp add: obuf_inv_at_def)
      with inv show ?thesis by (simp add: obuf_inv_at_def)
    qed
    have dp: "\<exists>buf' mem'. obuf_dup buf mem data = Some (Inl OutOfMemory, buf', mem')
                 \<and> obuf_inv buf'"
      if "k = IOBUF_IOV_MAX - 1 \<and> obuf_room k buf < length data"
    proof -
      from that have s: "Suc k = IOBUF_IOV_MAX" "obuf_room k buf < length data"
        by (auto simp: IOBUF_IOV_MAX_def)
      from obuf_dup_spec [OF inv, of mem data] s show ?thesis
        by (auto intro: obuf_inv_atI)
    qed
    have rs: "\<exists>buf'. obuf_reserve_slow buf sz = Some (Inl OutOfMemory, buf') \<and> obuf_inv buf'"
      if t: "k = IOBUF_IOV_MAX - 1
            \<and> (if 0 < iov_len (o_iov buf ! o_pos buf) then o_pos buf + 1 else o_pos buf) = k"
    proof -
      from obuf_reserve_slow_spec [OF inv, of sz mem]
      obtain res buf' k' where
        r: "obuf_reserve_slow buf sz = Some (res, buf')" "obuf_inv_at k' buf'"
          "o_pos buf' = (if 0 < iov_len (o_iov buf ! o_pos buf) then o_pos buf + 1 else o_pos buf)"
        and c: "res = Inl AssertionFailed \<and> o_pos buf' < k \<and> o_capacity buf ! o_pos buf' < sz
          \<or> res = Inl OutOfMemory \<and> o_pos buf' = k
          \<or> res = Inr (iov_base (o_iov buf' ! o_pos buf')) \<and> sz \<le> o_capacity buf' ! o_pos buf'
               \<and> Suc (o_pos buf') < IOBUF_IOV_MAX"
        by blast
      from t r(3) have "o_pos buf' = k" "Suc k = IOBUF_IOV_MAX"
        by (auto simp: IOBUF_IOV_MAX_def)
      with c have "res = Inl OutOfMemory" by auto
      with r show ?thesis by (auto intro: obuf_inv_atI)
    qed
    from m kb cnt last dp rs show ?thesis by blast
  qed
  have "obuf_reachable buf \<longrightarrow> obuf_inv buf" by (auto intro: obuf_reachable_inv)
  with wf show ?thesis by blast
qed

lemma scenario2_reachable: "obuf_reachable (fst scenario2)"
proof -
  have c: "obuf_create uninit_obuf demo_pool 128 = (Inr (), scenario_buf0)"
    by (simp add: scenario_buf0_def obuf_create_def obuf_init_pos_def IOBUF_IOV_MAX_def)
  have "obuf_reachable scenario_buf0"
    by (rule obuf_reachable.create [OF _ _ _ c])
       (simp_all add: uninit_obuf_def IOBUF_IOV_MAX_def)
  moreover have "obuf_dup scenario_buf0 demo_mem scenario_A = Some (Inr (), scenario1)"
    by (simp add: scenario_dup1 scenario1_eq)
  ultimately have "obuf_reachable (fst scenario1)"
    using obuf_reachable.dup [of scenario_buf0 demo_mem scenario_A "Inr ()"
        "fst scenario1" "snd scenario1"] by simp
  moreover have "obuf_dup (fst scenario1) (snd scenario1) scenario_B = Some (Inr (), scenario2)"
    by (simp add: scenario_dup2 scenario2_eq)
  ultimately show ?thesis
    using obuf_reachable.dup [of "fst scenario1" "snd scenario1" scenario_B "Inr ()"
        "fst scenario2" "snd scenario2"] by simp
qed

theorem obuf_effective_cap_witness:
  "obuf_reachable (fst scenario2) \<and> obuf_inv (fst scenario2)
   \<and> obuf_inv_at 31 full_obuf \<and> obuf_iovcnt full_obuf \<le> 31
   \<and> obuf_room 31 full_obuf < length [7::byte]
   \<and> (\<exists>buf' mem'. obuf_dup full_obuf demo_mem [7] = Some (Inl OutOfMemory, buf', mem')
          \<and> obuf_inv buf')
   \<and> 0 < iov_len (o_iov full_obuf ! o_pos full_obuf) \<and> o_pos full_obuf + 1 = 31
   \<and> (\<exists>buf'. obuf_reserve_slow full_obuf 1 = Some (Inl OutOfMemory, buf') \<and> obuf_inv buf')"
proof -
  note a = obuf_effective_cap [of "fst scenario2" 0 "[]" demo_mem 0, THEN conjunct1, THEN mp,
      OF scenario2_reachable]
  note b = obuf_effective_cap [of full_obuf 31 "[7]" demo_mem 1, THEN conjunct2, THEN mp,
      OF full_obuf_inv]
  have p: "o_pos full_obuf = 30" "0 < iov_len (o_iov full_obuf ! 30)"
    using full_obuf_nth(2) [of 30] by (simp_all add: full_obuf_def)
  have h1: "(31::nat) = IOBUF_IOV_MAX - 1 \<and> obuf_room 31 full_obuf < length [7::byte]"
    by (simp add: IOBUF_IOV_MAX_def full_obuf_room)
  have h2: "(31::nat) = IOBUF_IOV_MAX - 1
            \<and> (if 0 < iov_len (o_iov full_obuf ! o_pos full_obuf) then o_pos full_obuf + 1
                else o_pos full_obuf) = 31"
    by (simp add: IOBUF_IOV_MAX_def p)
  from b have "obuf_iovcnt full_obuf \<le> 31" by blast
  moreover from b h1
  have "\<exists>buf' mem'. obuf_dup full_obuf demo_mem [7] = Some (Inl OutOfMemory, buf', mem')
          \<and> obuf_inv buf'"
    by blast
  moreover from b h2
  have "\<exists>buf'. obuf_reserve_slow full_obuf 1 = Some (Inl OutOfMemory, buf') \<and> obuf_inv buf'"
    by blast
  moreover have "0 < iov_len (o_iov full_obuf ! o_pos full_obuf) \<and> o_pos full_obuf + 1 = 31"
    by (simp add: p)
  ultimately show ?thesis
    using a scenario2_reachable full_obuf_inv h1 by blast
qed


section \<open>Savepoints\<close>










end
